theory Spec2Isabelle
  imports Main "HOL-Library.AList" "HOL-Library.Sublist"
begin

section \<open>Strings\<close>

text \<open>
  A Python \<open>str\<close> is modelled as a \<open>string\<close> whose characters are the code points
  below 256. \<open>str.strip()\<close> removes the characters for which \<open>str.isspace\<close> holds;
  below 256 these are the code points 9 to 13, 28 to 32, 133 and 160.
\<close>

definition isspace :: "char \<Rightarrow> bool" where
  "isspace c = (of_char c \<in> set [9::nat, 10, 11, 12, 13, 28, 29, 30, 31, 32, 133, 160])"

definition strip :: "string \<Rightarrow> string" where
  "strip s = rev (dropWhile isspace (rev (dropWhile isspace s)))"

text \<open>\<open>sep.join(xs)\<close>\<close>

fun str_join :: "string \<Rightarrow> string list \<Rightarrow> string" where
  "str_join sep [] = []"
| "str_join sep [x] = x"
| "str_join sep (x # y # ys) = x @ sep @ str_join sep (y # ys)"

text \<open>
  The truth value Python gives to an optional string: \<open>None\<close> and the empty string
  are false.
\<close>

definition truthy :: "string option \<Rightarrow> bool" where
  "truthy v = (case v of None \<Rightarrow> False | Some s \<Rightarrow> s \<noteq> [])"

section \<open>The status document\<close>

text \<open>
  An element of \<open>xml.etree.ElementTree\<close>: its tag, its attributes and its children.
  Text content is never read by the program and is left out. The parser itself
  (\<open>ET.fromstring\<close>) belongs to the Python library; it is a parameter of the run
  (\<open>fromstring\<close> in the record \<open>host\<close> below), with \<open>None\<close> for a \<open>ParseError\<close>.
\<close>

datatype element = Element (tag: string) (attrib: "(string \<times> string) list") (children: "element list")

text \<open>\<open>Element.iter()\<close>: the element and all its descendants, in document order.\<close>

fun iter :: "element \<Rightarrow> element list" where
  "iter (Element t a cs) = Element t a cs # concat (map iter cs)"

text \<open>
  \<open>root.findall(".//" + t)\<close>: every descendant of \<open>root\<close> with tag \<open>t\<close>, in document
  order; the root itself is not a candidate.
\<close>

definition findall_descendants :: "string \<Rightarrow> element \<Rightarrow> element list" where
  "findall_descendants t root = filter (\<lambda>e. tag e = t) (concat (map iter (children root)))"

text \<open>\<open>elem.find(t)\<close>: the first child with tag \<open>t\<close>.\<close>

definition find_child :: "string \<Rightarrow> element \<Rightarrow> element option" where
  "find_child t e = List.find (\<lambda>c. tag c = t) (children e)"

text \<open>\<open>elem.get(key)\<close> and \<open>elem.get(key, default)\<close>\<close>

definition get_attr :: "element \<Rightarrow> string \<Rightarrow> string option" where
  "get_attr e k = map_of (attrib e) k"

definition get_attr_default :: "element \<Rightarrow> string \<Rightarrow> string \<Rightarrow> string" where
  "get_attr_default e k d = (case map_of (attrib e) k of None \<Rightarrow> d | Some v \<Rightarrow> v)"

text \<open>
  The loop of \<open>parse_missing_paths_from_svn_status_xml\<close> (lines 40 to 47), with the list
  \<open>missing\<close> as an accumulator.
\<close>

fun collect_missing :: "element list \<Rightarrow> string list \<Rightarrow> string list" where
  "collect_missing [] missing = missing"
| "collect_missing (entry # entries) missing =
     (case find_child ''wc-status'' entry of
        None \<Rightarrow> collect_missing entries missing
      | Some wcstatus \<Rightarrow>
          (if get_attr_default wcstatus ''item'' '''' = ''missing''
           then (case get_attr entry ''path'' of
                   None \<Rightarrow> collect_missing entries missing
                 | Some path \<Rightarrow>
                     (if path \<noteq> [] then collect_missing entries (missing @ [path])
                      else collect_missing entries missing))
           else collect_missing entries missing))"

definition missing_paths :: "element \<Rightarrow> string list" where
  "missing_paths root = collect_missing (findall_descendants ''entry'' root) []"

section \<open>Directory trees\<close>

text \<open>
  A file carries its content, together with the metadata that \<open>shutil.copy2\<close>
  copies along with it; a directory lists its entries by name. Symbolic links,
  special files and permissions are not modelled. A path is the list of names
  below a root: \<open>[]\<close> is the root itself (\<open>rel == "."\<close> in the program).
\<close>

type_synonym name = string
type_synonym path = "name list"

datatype node = File string | Dir "(name \<times> node) list"

type_synonym entries = "(name \<times> node) list"

datatype oserror =
  FileNotFoundError | FileExistsError | NotADirectoryError | IsADirectoryError

fun is_dir_node :: "node \<Rightarrow> bool" where
  "is_dir_node (Dir es) = True"
| "is_dir_node (File c) = False"

fun lookup :: "node \<Rightarrow> path \<Rightarrow> node option" where
  "lookup n [] = Some n"
| "lookup (File c) (x # p) = None"
| "lookup (Dir es) (x # p) = (case map_of es x of None \<Rightarrow> None | Some n \<Rightarrow> lookup n p)"

text \<open>\<open>os.path.exists\<close> and \<open>os.path.isdir\<close>\<close>

definition path_exists :: "node \<Rightarrow> path \<Rightarrow> bool" where
  "path_exists root p = (case lookup root p of None \<Rightarrow> False | Some n \<Rightarrow> True)"

definition isdir :: "node \<Rightarrow> path \<Rightarrow> bool" where
  "isdir root p = (case lookup root p of None \<Rightarrow> False | Some n \<Rightarrow> is_dir_node n)"

text \<open>
  The listing \<open>os.walk\<close> takes of one directory: the names of its subdirectories and
  the names of its other entries, each in listing order.
\<close>

definition scandir :: "entries \<Rightarrow> name list \<times> name list" where
  "scandir es =
     (map fst (filter (\<lambda>e. is_dir_node (snd e)) es),
      map fst (filter (\<lambda>e. \<not> is_dir_node (snd e)) es))"

text \<open>
  Distinct names in every directory: the invariant of a file system that the
  theorems about trees assume.
\<close>

fun wf_node :: "node \<Rightarrow> bool" where
  "wf_node (File c) = True"
| "wf_node (Dir es) = (distinct (map fst es) \<and> list_all (\<lambda>e. wf_node (snd e)) es)"

subsection \<open>The deletion walk (lines 108 to 125)\<close>

text \<open>
  \<open>os.remove\<close> and \<open>shutil.rmtree(..., ignore_errors=True)\<close> on an entry of the
  directory being visited. \<open>os.remove\<close> raises when the entry is gone or is a
  directory; \<open>rmtree\<close> with \<open>ignore_errors\<close> leaves the directory as it is then.
\<close>

definition os_remove :: "entries \<Rightarrow> name \<Rightarrow> oserror + entries" where
  "os_remove es f =
     (case map_of es f of
        None \<Rightarrow> Inl FileNotFoundError
      | Some (Dir sub) \<Rightarrow> Inl IsADirectoryError
      | Some (File c) \<Rightarrow> Inr (AList.delete f es))"

definition rmtree_ignore_errors :: "entries \<Rightarrow> name \<Rightarrow> entries" where
  "rmtree_ignore_errors es d =
     (case map_of es d of
        Some (Dir sub) \<Rightarrow> AList.delete d es
      | Some (File c) \<Rightarrow> es
      | None \<Rightarrow> es)"

text \<open>
  The two inner loops, over the names \<open>os.walk\<close> yielded for the directory at \<open>rel\<close>;
  \<open>es\<close> is what the directory holds when the loop reaches it.
\<close>

fun delete_files :: "node \<Rightarrow> path \<Rightarrow> name list \<Rightarrow> entries \<Rightarrow> oserror + entries" where
  "delete_files src rel [] es = Inr es"
| "delete_files src rel (f # files) es =
     (if \<not> path_exists src (rel @ [f])
      then (case os_remove es f of
              Inl e \<Rightarrow> Inl e
            | Inr es' \<Rightarrow> delete_files src rel files es')
      else delete_files src rel files es)"

fun delete_dirs :: "node \<Rightarrow> path \<Rightarrow> name list \<Rightarrow> entries \<Rightarrow> entries" where
  "delete_dirs src rel [] es = es"
| "delete_dirs src rel (d # dirs) es =
     (if \<not> path_exists src (rel @ [d])
      then delete_dirs src rel dirs (rmtree_ignore_errors es d)
      else delete_dirs src rel dirs es)"

text \<open>The body of the first loop for one directory: both inner loops.\<close>

definition delete_extras :: "node \<Rightarrow> path \<Rightarrow> name list \<Rightarrow> name list \<Rightarrow> entries \<Rightarrow> oserror + entries" where
  "delete_extras src rel dirs files es =
     (case delete_files src rel files es of
        Inl e \<Rightarrow> Inl e
      | Inr es1 \<Rightarrow> Inr (delete_dirs src rel dirs es1))"

text \<open>Deleting never makes a listing larger: what the walk below needs to terminate.\<close>

lemma size_delete_le: "size_list g (AList.delete k es) \<le> size_list g es"
  by (induction es) auto

lemma size_os_remove: "os_remove es f = Inr es' \<Longrightarrow> size_list g es' \<le> size_list g es"
  by (auto simp: os_remove_def size_delete_le split: option.splits node.splits)

lemma size_rmtree: "size_list g (rmtree_ignore_errors es d) \<le> size_list g es"
  by (auto simp: rmtree_ignore_errors_def size_delete_le split: option.splits node.splits)

lemma size_delete_files:
  "delete_files src rel fs es = Inr es' \<Longrightarrow> size_list g es' \<le> size_list g es"
proof (induction fs arbitrary: es)
  case Nil
  then show ?case by simp
next
  case (Cons f fs)
  then show ?case
    by (auto split: if_splits sum.splits dest!: size_os_remove[where g=g] Cons.IH intro: le_trans)
qed

lemma size_delete_dirs: "size_list g (delete_dirs src rel ds es) \<le> size_list g es"
proof (induction ds arbitrary: es)
  case Nil
  then show ?case by simp
next
  case (Cons d ds)
  have "size_list g (delete_dirs src rel ds (rmtree_ignore_errors es d))
          \<le> size_list g (rmtree_ignore_errors es d)"
    by (rule Cons.IH)
  also have "\<dots> \<le> size_list g es"
    by (rule size_rmtree)
  finally show ?case
    using Cons.IH[of es] by simp
qed

lemma size_delete_extras:
  "delete_extras src rel dirs files es = Inr es' \<Longrightarrow> size_list g es' \<le> size_list g es"
  unfolding delete_extras_def
  by (auto split: sum.splits dest!: size_delete_files[where g=g]
        intro: le_trans[OF size_delete_dirs])

text \<open>
  The first walk, \<open>for root_dir, dirs, files in os.walk(wc_root)\<close>, on the subtree of
  the working copy at \<open>rel\<close>. \<open>os.walk\<close> lists the directory, the body prunes \<open>.svn\<close>
  from \<open>dirs\<close> at the root and deletes what the source lacks, and \<open>os.walk\<close> then
  descends into the names left in \<open>dirs\<close>, listing each subdirectory only when it
  reaches it. A name whose directory the body has just removed fails in that
  listing, an error \<open>os.walk\<close> ignores, so the walk visits the subdirectories that
  are still there (\<open>walk_remove_subdirs\<close>, in listing order). A root that is not a
  directory yields nothing.
\<close>

function walk_remove :: "node \<Rightarrow> path \<Rightarrow> node \<Rightarrow> oserror + node"
  and walk_remove_subdirs :: "node \<Rightarrow> path \<Rightarrow> name list \<Rightarrow> entries \<Rightarrow> oserror + entries"
where
  "walk_remove src rel (File c) = Inr (File c)"
| "walk_remove src rel (Dir es) =
     (let dirs = (if rel = [] then filter (\<lambda>d. d \<noteq> ''.svn'') (fst (scandir es))
                  else fst (scandir es));
          files = snd (scandir es)
      in case delete_extras src rel dirs files es of
           Inl e \<Rightarrow> Inl e
         | Inr es' \<Rightarrow>
             (case walk_remove_subdirs src rel dirs es' of
                Inl e \<Rightarrow> Inl e
              | Inr es'' \<Rightarrow> Inr (Dir es'')))"
| "walk_remove_subdirs src rel dirs [] = Inr []"
| "walk_remove_subdirs src rel dirs ((d, n) # es) =
     (case (if d \<in> set dirs then walk_remove src (rel @ [d]) n else Inr n) of
        Inl e \<Rightarrow> Inl e
      | Inr n' \<Rightarrow>
          (case walk_remove_subdirs src rel dirs es of
             Inl e \<Rightarrow> Inl e
           | Inr es' \<Rightarrow> Inr ((d, n') # es')))"
  by pat_completeness auto
termination
proof (relation "measure (\<lambda>x. case x of
      Inl (src, rel, n) \<Rightarrow> 2 * size n + 1
    | Inr (src, rel, dirs, es) \<Rightarrow> 2 * size_list (size_prod (\<lambda>x. 0) size) es)", goal_cases)
  case 1
  show ?case by simp
next
  case (2 src rel es dirs files es')
  then show ?case
    using size_delete_extras[of src rel dirs files es es' "size_prod (\<lambda>x. 0) size"]
    by simp
next
  case 3
  then show ?case by simp
next
  case 4
  then show ?case by simp
qed

subsection \<open>The copy walk (lines 127 to 132)\<close>

text \<open>
  \<open>os.walk(source_path)\<close>: the source is only read, so the walk is the list of what
  it yields, top-down.
\<close>

fun os_walk :: "node \<Rightarrow> path \<Rightarrow> (path \<times> name list \<times> name list) list" where
  "os_walk (File c) rel = []"
| "os_walk (Dir es) rel =
     (rel, scandir es) #
       concat (map (\<lambda>(d, n). os_walk n (rel @ [d])) (filter (\<lambda>e. is_dir_node (snd e)) es))"

text \<open>A fresh chain of directories, as \<open>os.makedirs\<close> creates it.\<close>

fun mkchain :: "path \<Rightarrow> node" where
  "mkchain [] = Dir []"
| "mkchain (x # p) = Dir [(x, mkchain p)]"

text \<open>\<open>os.makedirs(path, exist_ok=True)\<close>\<close>

fun makedirs :: "node \<Rightarrow> path \<Rightarrow> oserror + node" where
  "makedirs (Dir es) [] = Inr (Dir es)"
| "makedirs (File c) [] = Inl FileExistsError"
| "makedirs (File c) (x # p) = Inl NotADirectoryError"
| "makedirs (Dir es) (x # p) =
     (case map_of es x of
        None \<Rightarrow> Inr (Dir (es @ [(x, mkchain p)]))
      | Some n \<Rightarrow>
          (case makedirs n p of
             Inl e \<Rightarrow> Inl e
           | Inr n' \<Rightarrow> Inr (Dir (AList.update x n' es))))"

text \<open>
  Opening \<open>dst\<close> for writing and writing \<open>c\<close>: the directory of \<open>dst\<close> must exist, and
  \<open>dst\<close> must not be a directory.
\<close>

fun write_file :: "node \<Rightarrow> path \<Rightarrow> string \<Rightarrow> oserror + node" where
  "write_file (Dir es) [] c = Inl IsADirectoryError"
| "write_file (File c') [] c = Inr (File c)"
| "write_file (File c') (x # p) c = Inl NotADirectoryError"
| "write_file (Dir es) (x # p) c =
     (case map_of es x of
        None \<Rightarrow> (if p = [] then Inr (Dir (es @ [(x, File c)])) else Inl FileNotFoundError)
      | Some n \<Rightarrow>
          (case write_file n p c of
             Inl e \<Rightarrow> Inl e
           | Inr n' \<Rightarrow> Inr (Dir (AList.update x n' es))))"

text \<open>
  \<open>shutil.copy2(src, dst)\<close> for a source file named \<open>f\<close> with content \<open>c\<close>: when \<open>dst\<close>
  is a directory, the file is written into it under the name \<open>f\<close>.
\<close>

definition copy2 :: "string \<Rightarrow> name \<Rightarrow> node \<Rightarrow> path \<Rightarrow> oserror + node" where
  "copy2 c f wc dst = (if isdir wc dst then write_file wc (dst @ [f]) c else write_file wc dst c)"

text \<open>The inner loop \<open>for f in files\<close> of the copy walk, for the source directory at \<open>rel\<close>.\<close>

fun copy_files :: "node \<Rightarrow> path \<Rightarrow> name list \<Rightarrow> node \<Rightarrow> oserror + node" where
  "copy_files src rel [] wc = Inr wc"
| "copy_files src rel (f # files) wc =
     (case lookup src (rel @ [f]) of
        Some (File c) \<Rightarrow>
          (case copy2 c f wc (rel @ [f]) of
             Inl e \<Rightarrow> Inl e
           | Inr wc' \<Rightarrow> copy_files src rel files wc')
      | Some (Dir sub) \<Rightarrow> Inl IsADirectoryError
      | None \<Rightarrow> Inl FileNotFoundError)"

text \<open>The outer loop over what \<open>os.walk(source_path)\<close> yields.\<close>

fun copy_loop :: "node \<Rightarrow> (path \<times> name list \<times> name list) list \<Rightarrow> node \<Rightarrow> oserror + node" where
  "copy_loop src [] wc = Inr wc"
| "copy_loop src ((rel, dirs, files) # ys) wc =
     (case makedirs wc rel of
        Inl e \<Rightarrow> Inl e
      | Inr wc1 \<Rightarrow>
          (case copy_files src rel files wc1 of
             Inl e \<Rightarrow> Inl e
           | Inr wc2 \<Rightarrow> copy_loop src ys wc2))"

subsection \<open>The portable mirror (lines 106 to 132)\<close>

definition mirror :: "node \<Rightarrow> node \<Rightarrow> oserror + node" where
  "mirror src wc =
     (case walk_remove src [] wc of
        Inl e \<Rightarrow> Inl e
      | Inr wc1 \<Rightarrow> copy_loop src (os_walk src []) wc1)"

text \<open>
  The same step when \<open>wc_root\<close> may be absent: the first walk then yields nothing,
  and the first \<open>os.makedirs\<close> of the copy walk creates the directory.
\<close>

definition portable_mirror :: "node \<Rightarrow> node option \<Rightarrow> oserror + node option" where
  "portable_mirror src wco =
     (case wco of
        Some t \<Rightarrow> (case mirror src t of Inl e \<Rightarrow> Inl e | Inr t' \<Rightarrow> Inr (Some t'))
      | None \<Rightarrow>
          (case src of
             File c \<Rightarrow> Inr None
           | Dir es \<Rightarrow>
               (case copy_loop src (os_walk src []) (Dir []) of
                  Inl e \<Rightarrow> Inl e
                | Inr t' \<Rightarrow> Inr (Some t'))))"

section \<open>The run\<close>

text \<open>
  What the program changes while it runs is the working copy at \<open>wc_root\<close> and
  whatever else the external tools keep (the repository, the credential cache):
  the field \<open>ext\<close>. The source tree is only read, the spec's read-only SourceTree,
  and lies apart from the working copy; it is part of the \<open>host\<close>, together with the
  environment, the platform, the clock readings and the two things the program
  calls but does not define: the XML parser and the external processes.
  \<open>process h cmd cwd w\<close> is \<open>Inl e\<close> when the process cannot be started, and
  otherwise its exit status, its output and the world it leaves.
\<close>

datatype exn =
  SystemExit int | OSError oserror | CalledProcessError int | ParseError
  | TypeError | AttributeError

fun is_Exception :: "exn \<Rightarrow> bool" where
  "is_Exception (SystemExit c) = False"
| "is_Exception e = True"

record 'e world =
  working_copy :: "node option"
  ext :: 'e

record 'e host =
  environ :: "string \<Rightarrow> string option"
  os_name :: string
  gettempdir :: string
  path_join :: "string \<Rightarrow> string \<Rightarrow> string"
  now_message :: string
  now_wc :: string
  source :: "node option"
  fromstring :: "string \<Rightarrow> element option"
  process :: "string list \<Rightarrow> string option \<Rightarrow> 'e world \<Rightarrow> oserror + (int \<times> string) \<times> 'e world"

text \<open>
  The trace of a run: every line printed, every external command with its working
  directory and what came of it, and the creation of the working copy directory.
\<close>

datatype event =
  Print string
| Exec "string list" "string option" "oserror + int \<times> string"
| Makedirs string

record 'e state =
  world :: "'e world"
  log :: "event list"

type_synonym ('a, 'e) prog = "'e state \<Rightarrow> (exn + 'a) \<times> 'e state"

definition returnM :: "'a \<Rightarrow> ('a, 'e) prog" where
  "returnM x = (\<lambda>s. (Inr x, s))"

definition raiseM :: "exn \<Rightarrow> ('a, 'e) prog" where
  "raiseM e = (\<lambda>s. (Inl e, s))"

definition bindM :: "('a, 'e) prog \<Rightarrow> ('a \<Rightarrow> ('b, 'e) prog) \<Rightarrow> ('b, 'e) prog" where
  "bindM m f = (\<lambda>s. case m s of (Inl e, s') \<Rightarrow> (Inl e, s') | (Inr x, s') \<Rightarrow> f x s')"

definition emit :: "event \<Rightarrow> (unit, 'e) prog" where
  "emit ev = (\<lambda>s. (Inr (), s\<lparr>log := log s @ [ev]\<rparr>))"

definition print :: "string \<Rightarrow> (unit, 'e) prog" where
  "print line = emit (Print line)"

subsection \<open>\<open>run\<close> (lines 9 to 18)\<close>

record completed =
  returncode :: int
  stdout :: "string option"

text \<open>
  What \<open>subprocess.run\<close> returns or raises, from what came of the process: it raises
  when the process could not be started, and when \<open>check\<close> is set and the exit
  status is not zero; the output is kept only under \<open>capture_output\<close>.
\<close>

fun run_result :: "bool \<Rightarrow> bool \<Rightarrow> oserror + int \<times> string \<Rightarrow> exn + completed" where
  "run_result check capture (Inl e) = Inl (OSError e)"
| "run_result check capture (Inr res) =
     (if check \<and> fst res \<noteq> 0 then Inl (CalledProcessError (fst res))
      else Inr \<lparr>returncode = fst res, stdout = (if capture then Some (snd res) else None)\<rparr>)"

definition subprocess_run ::
  "'e host \<Rightarrow> string list \<Rightarrow> string option \<Rightarrow> bool \<Rightarrow> bool \<Rightarrow> (completed, 'e) prog" where
  "subprocess_run h cmd cwd check capture = (\<lambda>s.
     case process h cmd cwd (world s) of
       Inl e \<Rightarrow>
         (run_result check capture (Inl e), s\<lparr>log := log s @ [Exec cmd cwd (Inl e)]\<rparr>)
     | Inr (res, w') \<Rightarrow>
         (run_result check capture (Inr res),
          s\<lparr>world := w', log := log s @ [Exec cmd cwd (Inr res)]\<rparr>))"

text \<open>The line \<open>run\<close> prints before it starts the command.\<close>

definition trace_line :: "string list \<Rightarrow> string option \<Rightarrow> string" where
  "trace_line cmd cwd =
     ''> '' @ str_join '' '' cmd @
       (case cwd of
          None \<Rightarrow> []
        | Some d \<Rightarrow> if d \<noteq> [] then ''  (cwd='' @ d @ '')'' else [])"

definition run ::
  "'e host \<Rightarrow> string list \<Rightarrow> string option \<Rightarrow> bool \<Rightarrow> bool \<Rightarrow> (completed, 'e) prog" where
  "run h cmd cwd check capture =
     bindM (print (trace_line cmd cwd)) (\<lambda>_. subprocess_run h cmd cwd check capture)"

subsection \<open>\<open>ensure_tool\<close> (lines 20 to 26) and \<open>get_env\<close> (lines 28 to 33)\<close>

definition ensure_tool :: "'e host \<Rightarrow> string \<Rightarrow> (unit, 'e) prog" where
  "ensure_tool h name = (\<lambda>s.
     case run h [name, ''--version''] None True False s of
       (Inr cp, s') \<Rightarrow> (Inr (), s')
     | (Inl e, s') \<Rightarrow>
         (if is_Exception e
          then bindM (print (''ERROR: Required tool not found: '' @ name)) (\<lambda>_. raiseM e) s'
          else (Inl e, s')))"

definition get_env ::
  "'e host \<Rightarrow> string \<Rightarrow> string option \<Rightarrow> bool \<Rightarrow> (string option, 'e) prog" where
  "get_env h name dflt required =
     (let val = (case environ h name of None \<Rightarrow> dflt | Some v \<Rightarrow> Some v)
      in if required \<and> \<not> truthy val
         then bindM (print (''ERROR: Missing required environment variable: '' @ name))
                (\<lambda>_. raiseM (SystemExit 1))
         else returnM val)"

subsection \<open>\<open>parse_missing_paths_from_svn_status_xml\<close> (lines 35 to 48)\<close>

definition parse_missing_paths_from_svn_status_xml ::
  "'e host \<Rightarrow> string \<Rightarrow> (string list, 'e) prog" where
  "parse_missing_paths_from_svn_status_xml h wc_root =
     bindM (run h [''svn'', ''status'', ''--xml''] (Some wc_root) True True) (\<lambda>cp.
       case stdout cp of
         None \<Rightarrow> raiseM TypeError
       | Some text \<Rightarrow>
           (case fromstring h text of
              None \<Rightarrow> raiseM ParseError
            | Some root \<Rightarrow> returnM (missing_paths root)))"

subsection \<open>\<open>get_pending_status\<close> (lines 50 to 54)\<close>

definition get_pending_status :: "'e host \<Rightarrow> string \<Rightarrow> (string \<times> bool, 'e) prog" where
  "get_pending_status h wc_root =
     bindM (run h [''svn'', ''status''] (Some wc_root) True True) (\<lambda>cp.
       case stdout cp of
         None \<Rightarrow> raiseM AttributeError
       | Some out \<Rightarrow> (let text = strip out in returnM (text, text \<noteq> [])))"

subsection \<open>\<open>main\<close> (lines 56 to 157)\<close>

text \<open>
  The credential arguments both commands append (lines 86 to 87 and 153 to 154)
  under \<open>if svn_username and svn_password\<close>.
\<close>

definition credentials :: "string option \<Rightarrow> string option \<Rightarrow> string list" where
  "credentials svn_username svn_password =
     (case (svn_username, svn_password) of
        (Some u, Some p) \<Rightarrow>
          (if u \<noteq> [] \<and> p \<noteq> []
           then [''--username'', u, ''--password'', p, ''--no-auth-cache'']
           else [])
      | _ \<Rightarrow> [])"

definition checkout_cmd :: "string \<Rightarrow> string \<Rightarrow> string option \<Rightarrow> string option \<Rightarrow> string list" where
  "checkout_cmd svn_url wc_root svn_username svn_password =
     [''svn'', ''checkout'', svn_url, wc_root, ''--non-interactive'', ''--trust-server-cert'']
       @ credentials svn_username svn_password"

definition commit_cmd :: "string \<Rightarrow> string option \<Rightarrow> string option \<Rightarrow> string list" where
  "commit_cmd commit_msg svn_username svn_password =
     [''svn'', ''commit'', ''-m'', commit_msg, ''--non-interactive'', ''--trust-server-cert'']
       @ credentials svn_username svn_password"

definition robocopy_cmd :: "string \<Rightarrow> string \<Rightarrow> string list" where
  "robocopy_cmd source_path wc_root =
     [''robocopy'', source_path, wc_root, ''/MIR'', ''/XD'', ''.svn'',
      ''/MT:8'', ''/R:2'', ''/W:2'', ''/NFL'', ''/NDL'', ''/NP'']"

definition add_cmd :: "string list" where
  "add_cmd = [''svn'', ''add'', ''--force'', ''.'', ''--auto-props'', ''--parents'',
              ''--depth'', ''infinity'', ''--no-ignore'']"

definition rm_cmd :: "string \<Rightarrow> string list" where
  "rm_cmd p = [''svn'', ''rm'', ''--force'', p]"

text \<open>\<open>os.makedirs(wc_root, exist_ok=True)\<close> of line 81, on the world.\<close>

definition makedirs_wc_root :: "string \<Rightarrow> (unit, 'e) prog" where
  "makedirs_wc_root wc_root = (\<lambda>s.
     let s' = s\<lparr>log := log s @ [Makedirs wc_root]\<rparr>
     in case working_copy (world s) of
          None \<Rightarrow> (Inr (), s'\<lparr>world := (world s)\<lparr>working_copy := Some (Dir [])\<rparr>\<rparr>)
        | Some (Dir es) \<Rightarrow> (Inr (), s')
        | Some (File c) \<Rightarrow> (Inl (OSError FileExistsError), s'))"

text \<open>
  Lines 94 to 132. An exception of the portable branch ends the run; the model
  then leaves the working copy as it was before the step, since nothing reads it
  afterwards.
\<close>

definition mirror_step :: "'e host \<Rightarrow> string \<Rightarrow> node \<Rightarrow> string \<Rightarrow> (unit, 'e) prog" where
  "mirror_step h source_path src wc_root =
     (if os_name h = ''nt''
      then bindM (run h (robocopy_cmd source_path wc_root) None False False) (\<lambda>_. returnM ())
      else (\<lambda>s. case portable_mirror src (working_copy (world s)) of
                  Inl e \<Rightarrow> (Inl (OSError e), s)
                | Inr wco \<Rightarrow> (Inr (), s\<lparr>world := (world s)\<lparr>working_copy := wco\<rparr>\<rparr>)))"

text \<open>Lines 136 to 138: the loop over \<open>missing_paths\<close>.\<close>

fun schedule_deletes :: "'e host \<Rightarrow> string \<Rightarrow> string list \<Rightarrow> (unit, 'e) prog" where
  "schedule_deletes h wc_root [] = returnM ()"
| "schedule_deletes h wc_root (p # ps) =
     bindM (print (''Scheduling delete: '' @ p)) (\<lambda>_.
     bindM (run h (rm_cmd p) (Some wc_root) True False) (\<lambda>_.
     schedule_deletes h wc_root ps))"

text \<open>Lines 134 to 141.\<close>

definition reconcile :: "'e host \<Rightarrow> string \<Rightarrow> (unit, 'e) prog" where
  "reconcile h wc_root =
     bindM (parse_missing_paths_from_svn_status_xml h wc_root) (\<lambda>missing.
     bindM (schedule_deletes h wc_root missing) (\<lambda>_.
     bindM (run h add_cmd (Some wc_root) True False) (\<lambda>_. returnM ())))"

text \<open>Lines 143 to 157.\<close>

definition commit_decision ::
  "'e host \<Rightarrow> string \<Rightarrow> string \<Rightarrow> string option \<Rightarrow> string option \<Rightarrow> (unit, 'e) prog" where
  "commit_decision h wc_root commit_msg svn_username svn_password =
     bindM (get_pending_status h wc_root) (\<lambda>(status_text, has_changes).
     bindM (print ([CHR 0x0A] @ ''SVN status after add/rm:'' @ [CHR 0x0A] @
                   (if status_text \<noteq> [] then status_text else ''(no changes)''))) (\<lambda>_.
     if \<not> has_changes
     then print ''No changes detected. Skipping commit.''
     else
       bindM (run h (commit_cmd commit_msg svn_username svn_password) (Some wc_root) True False) (\<lambda>_.
       print ([CHR 0x0A] @ ''Commit finished successfully.''))))"

text \<open>
  A required variable is never \<open>None\<close> once \<open>get_env\<close> has returned; \<open>need\<close> reads the
  string.
\<close>

definition need :: "string option \<Rightarrow> (string, 'e) prog" where
  "need v = (case v of None \<Rightarrow> raiseM TypeError | Some s \<Rightarrow> returnM s)"

definition default_message :: "'e host \<Rightarrow> string" where
  "default_message h =
     ''Automated sync from '' @
       (case environ h ''COMPUTERNAME'' of None \<Rightarrow> ''unknown'' | Some n \<Rightarrow> n) @
       '' at '' @ now_message h"

text \<open>
  Everything after the tool check (lines 72 to 157), for the source tree \<open>src\<close> found
  at \<open>source_path\<close>.
\<close>

definition sync ::
  "'e host \<Rightarrow> string \<Rightarrow> node \<Rightarrow> string \<Rightarrow> string option \<Rightarrow> string option \<Rightarrow> string \<Rightarrow> (unit, 'e) prog" where
  "sync h source_path src svn_url svn_username svn_password commit_msg =
     bindM (if os_name h = ''nt'' then returnM ()
            else print ''WARNING: Non-Windows OS detected; falling back to Python copy (slower).'') (\<lambda>_.
     let runner_temp = (case environ h ''RUNNER_TEMP'' of
                          None \<Rightarrow> gettempdir h
                        | Some t \<Rightarrow> if t \<noteq> [] then t else gettempdir h);
         wc_root = path_join h runner_temp (''svn-wc-'' @ now_wc h)
     in
     bindM (makedirs_wc_root wc_root) (\<lambda>_.
     bindM (print (''Working copy root: '' @ wc_root)) (\<lambda>_.
     bindM (run h (checkout_cmd svn_url wc_root svn_username svn_password) None True False) (\<lambda>_.
     bindM (run h [''svn'', ''update''] (Some wc_root) True False) (\<lambda>_.
     bindM (mirror_step h source_path src wc_root) (\<lambda>_.
     bindM (reconcile h wc_root) (\<lambda>_.
     commit_decision h wc_root commit_msg svn_username svn_password)))))))"

definition main :: "'e host \<Rightarrow> (unit, 'e) prog" where
  "main h =
     bindM (get_env h ''SOURCE_PATH'' None True) (\<lambda>source_path_opt.
     bindM (need source_path_opt) (\<lambda>source_path.
     bindM (get_env h ''SVN_URL'' None True) (\<lambda>svn_url_opt.
     bindM (need svn_url_opt) (\<lambda>svn_url.
     bindM (get_env h ''SVN_USERNAME'' None False) (\<lambda>svn_username.
     bindM (get_env h ''SVN_PASSWORD'' None False) (\<lambda>svn_password.
     bindM (get_env h ''COMMIT_MESSAGE'' None False) (\<lambda>message.
     let commit_msg = (case message of
                         None \<Rightarrow> default_message h
                       | Some m \<Rightarrow> if m \<noteq> [] then m else default_message h)
     in
     case source h of
       None \<Rightarrow>
         bindM (print (''ERROR: Source path not found: '' @ source_path)) (\<lambda>_.
         raiseM (SystemExit 1))
     | Some src \<Rightarrow>
         bindM (ensure_tool h ''svn'') (\<lambda>_.
         sync h source_path src svn_url svn_username svn_password commit_msg))))))))"

section \<open>Traces\<close>

text \<open>The commands of a trace, in the order in which they were started.\<close>

fun execs :: "event list \<Rightarrow> string list list" where
  "execs [] = []"
| "execs (Exec cmd cwd res # evs) = cmd # execs evs"
| "execs (Print l # evs) = execs evs"
| "execs (Makedirs d # evs) = execs evs"

definition subcommand :: "string \<Rightarrow> string list \<Rightarrow> bool" where
  "subcommand c cmd = (take 2 cmd = [''svn'', c])"

text \<open>What one call of \<open>run\<close> adds to the trace.\<close>

definition run_events :: "string list \<Rightarrow> string option \<Rightarrow> oserror + int \<times> string \<Rightarrow> event list" where
  "run_events cmd cwd res = [Print (trace_line cmd cwd), Exec cmd cwd res]"

text \<open>
  What the loop of lines 136 to 138 adds for removes that all succeed; each path
  comes with the output of its command.
\<close>

fun delete_events :: "string \<Rightarrow> (string \<times> string) list \<Rightarrow> event list" where
  "delete_events wc_root [] = []"
| "delete_events wc_root ((p, out) # xs) =
     Print (''Scheduling delete: '' @ p) # run_events (rm_cmd p) (Some wc_root) (Inr (0, out))
       @ delete_events wc_root xs"

definition status_summary :: "string \<Rightarrow> string" where
  "status_summary status_text =
     [CHR 0x0A] @ ''SVN status after add/rm:'' @ [CHR 0x0A] @
       (if status_text \<noteq> [] then status_text else ''(no changes)'')"

text \<open>The commands started before the reconciliation (lines 71 to 104).\<close>

definition pre_cmd :: "'e host \<Rightarrow> string list \<Rightarrow> bool" where
  "pre_cmd h cmd =
     (cmd = [''svn'', ''--version'']
      \<or> (\<exists>svn_url wc_root.
            cmd = checkout_cmd svn_url wc_root (environ h ''SVN_USERNAME'') (environ h ''SVN_PASSWORD''))
      \<or> cmd = [''svn'', ''update'']
      \<or> (\<exists>source_path wc_root. cmd = robocopy_cmd source_path wc_root))"

text \<open>The traces of the reconciliation (lines 134 to 141), with its outcome.\<close>

inductive reconcile_trace :: "'e host \<Rightarrow> string \<Rightarrow> exn + unit \<Rightarrow> event list \<Rightarrow> bool"
  for h :: "'e host" and wc_root :: string
where
  xml_failed:
    "run_result True True res = Inl e \<Longrightarrow>
     reconcile_trace h wc_root (Inl e)
       (run_events [''svn'', ''status'', ''--xml''] (Some wc_root) res)"
| parse_failed:
    "fromstring h out = None \<Longrightarrow>
     reconcile_trace h wc_root (Inl ParseError)
       (run_events [''svn'', ''status'', ''--xml''] (Some wc_root) (Inr (0, out)))"
| rm_failed:
    "fromstring h out = Some root \<Longrightarrow> k < length (missing_paths root) \<Longrightarrow> length outs = k \<Longrightarrow>
     run_result True False res = Inl e \<Longrightarrow>
     reconcile_trace h wc_root (Inl e)
       (run_events [''svn'', ''status'', ''--xml''] (Some wc_root) (Inr (0, out)) @
        delete_events wc_root (zip (take k (missing_paths root)) outs) @
        Print (''Scheduling delete: '' @ missing_paths root ! k) #
        run_events (rm_cmd (missing_paths root ! k)) (Some wc_root) res)"
| add_failed:
    "fromstring h out = Some root \<Longrightarrow> length outs = length (missing_paths root) \<Longrightarrow>
     run_result True False res = Inl e \<Longrightarrow>
     reconcile_trace h wc_root (Inl e)
       (run_events [''svn'', ''status'', ''--xml''] (Some wc_root) (Inr (0, out)) @
        delete_events wc_root (zip (missing_paths root) outs) @
        run_events add_cmd (Some wc_root) res)"
| reconciled:
    "fromstring h out = Some root \<Longrightarrow> length outs = length (missing_paths root) \<Longrightarrow>
     reconcile_trace h wc_root (Inr ())
       (run_events [''svn'', ''status'', ''--xml''] (Some wc_root) (Inr (0, out)) @
        delete_events wc_root (zip (missing_paths root) outs) @
        run_events add_cmd (Some wc_root) (Inr (0, out')))"

text \<open>The traces of the commit decision (lines 143 to 157), with its outcome.\<close>

inductive commit_trace ::
  "'e host \<Rightarrow> string \<Rightarrow> string \<Rightarrow> exn + unit \<Rightarrow> event list \<Rightarrow> bool"
  for h :: "'e host" and wc_root :: string and msg :: string
where
  status_failed:
    "run_result True True res = Inl e \<Longrightarrow>
     commit_trace h wc_root msg (Inl e) (run_events [''svn'', ''status''] (Some wc_root) res)"
| no_changes:
    "strip out = [] \<Longrightarrow>
     commit_trace h wc_root msg (Inr ())
       (run_events [''svn'', ''status''] (Some wc_root) (Inr (0, out)) @
        [Print (status_summary []), Print ''No changes detected. Skipping commit.''])"
| commit_failed:
    "strip out \<noteq> [] \<Longrightarrow> run_result True False res' = Inl e \<Longrightarrow>
     commit_trace h wc_root msg (Inl e)
       (run_events [''svn'', ''status''] (Some wc_root) (Inr (0, out)) @
        [Print (status_summary (strip out))] @
        run_events (commit_cmd msg (environ h ''SVN_USERNAME'') (environ h ''SVN_PASSWORD''))
          (Some wc_root) res')"
| committed:
    "strip out \<noteq> [] \<Longrightarrow>
     commit_trace h wc_root msg (Inr ())
       (run_events [''svn'', ''status''] (Some wc_root) (Inr (0, out)) @
        [Print (status_summary (strip out))] @
        run_events (commit_cmd msg (environ h ''SVN_USERNAME'') (environ h ''SVN_PASSWORD''))
          (Some wc_root) (Inr (0, out')) @
        [Print ([CHR 0x0A] @ ''Commit finished successfully.'')])"

text \<open>
  The traces of a whole run: it ends before the reconciliation, in it, or in the
  commit decision.
\<close>

inductive main_trace :: "'e host \<Rightarrow> exn + unit \<Rightarrow> event list \<Rightarrow> bool"
  for h :: "'e host"
where
  early:
    "list_all (pre_cmd h) (execs A) \<Longrightarrow> main_trace h (Inl e) A"
| in_reconcile:
    "list_all (pre_cmd h) (execs A) \<Longrightarrow> reconcile_trace h wc_root (Inl e) B \<Longrightarrow>
     main_trace h (Inl e) (A @ B)"
| decided:
    "list_all (pre_cmd h) (execs A) \<Longrightarrow> reconcile_trace h wc_root (Inr ()) B \<Longrightarrow>
     commit_trace h wc_root msg r C \<Longrightarrow>
     main_trace h r (A @ B @ C)"

text \<open>An event that starts a command with the property \<open>P\<close>.\<close>

definition exec_of :: "(string list \<Rightarrow> bool) \<Rightarrow> event \<Rightarrow> bool" where
  "exec_of P e = (case e of Exec c d x \<Rightarrow> P c | Print l \<Rightarrow> False | Makedirs d \<Rightarrow> False)"

section \<open>Reading an entry\<close>

text \<open>The item state an entry reports: the \<open>item\<close> attribute of its first \<open>wc-status\<close> child.\<close>

definition item_state :: "element \<Rightarrow> string option" where
  "item_state entry =
     (case find_child ''wc-status'' entry of
        None \<Rightarrow> None
      | Some wcstatus \<Rightarrow> Some (get_attr_default wcstatus ''item'' []))"

section \<open>Scenarios\<close>

text \<open>
  A status document, a host and a starting state on which the theorems below are
  instantiated: a Unix host with both credentials set, a source tree of one file and
  no working copy yet. The parameters say whether \<open>svn\<close> can be started and what the
  two status commands print; every command that starts exits with status 0.
\<close>

definition status_document :: element where
  "status_document =
     Element ''status'' []
       [Element ''target'' [(''path'', ''.'')]
          [Element ''entry'' [(''path'', ''old.txt'')]
             [Element ''wc-status'' [(''item'', ''missing''), (''props'', ''none'')] []],
           Element ''entry'' [(''path'', ''new.txt'')]
             [Element ''wc-status'' [(''item'', ''unversioned'')] []]]]"

definition scenario :: "bool \<Rightarrow> string \<Rightarrow> string \<Rightarrow> unit host" where
  "scenario installed xml pending = \<lparr>
     environ = map_of [(''SOURCE_PATH'', ''/src''), (''SVN_URL'', ''http://svn/r''),
                       (''SVN_USERNAME'', ''u''), (''SVN_PASSWORD'', ''p''),
                       (''COMMIT_MESSAGE'', ''sync'')],
     os_name = ''posix'',
     gettempdir = ''/tmp'',
     path_join = (\<lambda>a b. a @ ''/'' @ b),
     now_message = ''2026-01-01 00:00:00'',
     now_wc = ''1'',
     source = Some (Dir [(''a.txt'', File ''A'')]),
     fromstring = (\<lambda>t. if t = ''<status/>'' then Some status_document else None),
     process = (\<lambda>cmd cwd w.
        if \<not> installed then Inl FileNotFoundError
        else Inr ((0, if cmd = [''svn'', ''status'', ''--xml''] then xml
                      else if cmd = [''svn'', ''status''] then pending else []), w))\<rparr>"

definition fresh :: "unit state" where
  "fresh = \<lparr>world = \<lparr>working_copy = None, ext = ()\<rparr>, log = []\<rparr>"

text \<open>
  What the scenario run has printed and started when the reconciliation is over,
  with the status document above.
\<close>

definition scenario_prefix :: "event list" where
  "scenario_prefix =
     [Print ''> svn --version'',
      Exec [''svn'', ''--version''] None (Inr (0, [])),
      Print ''WARNING: Non-Windows OS detected; falling back to Python copy (slower).'',
      Makedirs ''/tmp/svn-wc-1'',
      Print ''Working copy root: /tmp/svn-wc-1'',
      Print ''> svn checkout http://svn/r /tmp/svn-wc-1 --non-interactive --trust-server-cert --username u --password p --no-auth-cache'',
      Exec [''svn'', ''checkout'', ''http://svn/r'', ''/tmp/svn-wc-1'', ''--non-interactive'',
            ''--trust-server-cert'', ''--username'', ''u'', ''--password'', ''p'', ''--no-auth-cache'']
        None (Inr (0, [])),
      Print ''> svn update  (cwd=/tmp/svn-wc-1)'',
      Exec [''svn'', ''update''] (Some ''/tmp/svn-wc-1'') (Inr (0, [])),
      Print ''> svn status --xml  (cwd=/tmp/svn-wc-1)'',
      Exec [''svn'', ''status'', ''--xml''] (Some ''/tmp/svn-wc-1'') (Inr (0, ''<status/>'')),
      Print ''Scheduling delete: old.txt'',
      Print ''> svn rm --force old.txt  (cwd=/tmp/svn-wc-1)'',
      Exec [''svn'', ''rm'', ''--force'', ''old.txt''] (Some ''/tmp/svn-wc-1'') (Inr (0, [])),
      Print ''> svn add --force . --auto-props --parents --depth infinity --no-ignore  (cwd=/tmp/svn-wc-1)'',
      Exec add_cmd (Some ''/tmp/svn-wc-1'') (Inr (0, []))]"

text \<open>
  The same host with a status document in which two entries are in state \<open>missing\<close>;
  the \<open>path\<close> attribute of the first is empty.
\<close>

definition empty_path_document :: element where
  "empty_path_document =
     Element ''status'' []
       [Element ''target'' [(''path'', ''.'')]
          [Element ''entry'' [(''path'', [])]
             [Element ''wc-status'' [(''item'', ''missing'')] []],
           Element ''entry'' [(''path'', ''old.txt'')]
             [Element ''wc-status'' [(''item'', ''missing'')] []]]]"

definition empty_path_scenario :: "unit host" where
  "empty_path_scenario =
     (scenario True ''<status/>'' ''D old.txt'')
       \<lparr>fromstring := (\<lambda>t. if t = ''<status/>'' then Some empty_path_document else None)\<rparr>"

section \<open>Reading a tree\<close>

text \<open>What \<open>os.stat\<close> would tell about a path: nothing there, a directory, or a file and its content.\<close>

datatype stat = Missing | IsDir | IsFile string

definition stat :: "node \<Rightarrow> path \<Rightarrow> stat" where
  "stat root p =
     (case lookup root p of
        None \<Rightarrow> Missing
      | Some (Dir es) \<Rightarrow> IsDir
      | Some (File c) \<Rightarrow> IsFile c)"

text \<open>
  Some path is a file in the first tree and a directory in the second: the one
  clash of kinds under which \<open>shutil.copy2\<close> writes into the directory instead of
  writing the file.
\<close>

fun file_over_dir :: "node \<Rightarrow> node \<Rightarrow> bool" where
  "file_over_dir (File c) (Dir es') = True"
| "file_over_dir (File c) (File c') = False"
| "file_over_dir (Dir es) (File c') = False"
| "file_over_dir (Dir es) (Dir es') =
     list_ex (\<lambda>e. case map_of es' (fst e) of
                     None \<Rightarrow> False
                   | Some n' \<Rightarrow> file_over_dir (snd e) n') es"

text \<open>
  The tree the deletion walk leaves, written by recursion on the tree: an entry
  stays when the source has something under its name, and so does the directory
  \<open>.svn\<close> of the root, which is kept whole. It is proved equal to \<open>walk_remove\<close> on trees
  with distinct names (\<open>walk_remove_pruned\<close>).
\<close>

fun pruned :: "node \<Rightarrow> path \<Rightarrow> node \<Rightarrow> node"
  and pruned_entries :: "node \<Rightarrow> path \<Rightarrow> entries \<Rightarrow> entries"
where
  "pruned src rel (File c) = File c"
| "pruned src rel (Dir es) = Dir (pruned_entries src rel es)"
| "pruned_entries src rel [] = []"
| "pruned_entries src rel ((n, c) # es) =
     (if rel = [] \<and> n = ''.svn'' \<and> is_dir_node c then (n, c) # pruned_entries src rel es
      else if path_exists src (rel @ [n]) then (n, pruned src (rel @ [n]) c) # pruned_entries src rel es
      else pruned_entries src rel es)"

text \<open>The names \<open>os.walk\<close> descends into, and the entries the body of the first loop keeps.\<close>

definition walk_dirs :: "path \<Rightarrow> entries \<Rightarrow> name list" where
  "walk_dirs rel es =
     (if rel = [] then filter (\<lambda>d. d \<noteq> ''.svn'') (fst (scandir es)) else fst (scandir es))"

definition kept :: "node \<Rightarrow> path \<Rightarrow> name \<times> node \<Rightarrow> bool" where
  "kept src rel e =
     (path_exists src (rel @ [fst e]) \<or> (is_dir_node (snd e) \<and> rel = [] \<and> fst e = ''.svn''))"

text \<open>
  Vocabulary of the proofs about the copy walk: no file of the source is a directory
  of the working copy; what a walk yields lies in the source; the paths a walk
  creates or writes; and a tree in which everything outside the root's \<open>.svn\<close> has a
  counterpart in the source.
\<close>

definition noconf :: "node \<Rightarrow> node \<Rightarrow> bool" where
  "noconf src wc = (\<forall>p c. stat src p = IsFile c \<longrightarrow> stat wc p \<noteq> IsDir)"

definition yields_ok :: "node \<Rightarrow> (path \<times> name list \<times> name list) list \<Rightarrow> bool" where
  "yields_ok src ys =
     (\<forall>y \<in> set ys. stat src (fst y) = IsDir \<and>
        (\<forall>f \<in> set (snd (snd y)). \<exists>c. stat src (fst y @ [f]) = IsFile c))"

definition covered :: "(path \<times> name list \<times> name list) list \<Rightarrow> path \<Rightarrow> bool" where
  "covered ys p = (\<exists>y \<in> set ys. prefix p (fst y) \<or> (\<exists>f \<in> set (snd (snd y)). p = fst y @ [f]))"

definition settled :: "node \<Rightarrow> path \<Rightarrow> node \<Rightarrow> bool" where
  "settled src rel n =
     (\<forall>x p. stat n (x # p) \<noteq> Missing \<longrightarrow>
        path_exists src (rel @ x # p) \<or> (rel = [] \<and> x = ''.svn'' \<and> stat n [x] = IsDir))"

definition entry_settled :: "node \<Rightarrow> path \<Rightarrow> name \<times> node \<Rightarrow> bool" where
  "entry_settled src rel e =
     ((rel = [] \<and> fst e = ''.svn'' \<and> is_dir_node (snd e)) \<or>
      (path_exists src (rel @ [fst e]) \<and> settled src (rel @ [fst e]) (snd e)))"

section \<open>Every run has one of these traces\<close>

lemma execs_append: "execs (xs @ ys) = execs xs @ execs ys"
  by (induction xs rule: execs.induct) auto

definition emits :: "((exn + 'a) \<Rightarrow> event list \<Rightarrow> bool) \<Rightarrow> ('a, 'e) prog \<Rightarrow> bool" where
  "emits Q m = (\<forall>s. \<exists>evs. log (snd (m s)) = log s @ evs \<and> Q (fst (m s)) evs)"

lemma emitsD: "emits Q m \<Longrightarrow> m s = (r, s') \<Longrightarrow> \<exists>evs. log s' = log s @ evs \<and> Q r evs"
  unfolding emits_def by (metis fst_conv snd_conv)

lemma emits_weaken: "emits Q m \<Longrightarrow> (\<And>r evs. Q r evs \<Longrightarrow> Q' r evs) \<Longrightarrow> emits Q' m"
  unfolding emits_def by blast

lemma emits_returnM: "Q (Inr x) [] \<Longrightarrow> emits Q (returnM x)"
  by (simp add: emits_def returnM_def)

lemma emits_raiseM: "Q (Inl e) [] \<Longrightarrow> emits Q (raiseM e)"
  by (simp add: emits_def raiseM_def)

lemma emits_print: "Q (Inr ()) [Print l] \<Longrightarrow> emits Q (print l)"
  by (simp add: emits_def print_def emit_def)

lemma emits_bindM:
  assumes m: "emits Q1 m"
    and f: "\<And>x. emits (Q2 x) (f x)"
    and fail: "\<And>e evs. Q1 (Inl e) evs \<Longrightarrow> Q (Inl e) evs"
    and ok: "\<And>x evs1 r evs2. Q1 (Inr x) evs1 \<Longrightarrow> Q2 x r evs2 \<Longrightarrow> Q r (evs1 @ evs2)"
  shows "emits Q (bindM m f)"
  unfolding emits_def
proof
  fix s
  obtain r1 s1 where ms: "m s = (r1, s1)" by (cases "m s")
  from emitsD[OF m ms] obtain evs1 where l1: "log s1 = log s @ evs1" and q1: "Q1 r1 evs1" by blast
  show "\<exists>evs. log (snd (bindM m f s)) = log s @ evs \<and> Q (fst (bindM m f s)) evs"
  proof (cases r1)
    case (Inl e)
    then show ?thesis using ms l1 q1 fail by (auto simp: bindM_def)
  next
    case (Inr x)
    obtain r2 s2 where fs: "f x s1 = (r2, s2)" by (cases "f x s1")
    from emitsD[OF f fs] obtain evs2 where l2: "log s2 = log s1 @ evs2" and q2: "Q2 x r2 evs2" by blast
    have "bindM m f s = (r2, s2)" using ms Inr fs by (simp add: bindM_def)
    moreover have "log s2 = log s @ (evs1 @ evs2)" using l1 l2 by simp
    moreover have "Q r2 (evs1 @ evs2)" using ok q1 q2 Inr by blast
    ultimately show ?thesis by (metis fst_conv snd_conv)
  qed
qed

lemma run_emits:
  "emits (\<lambda>r evs. \<exists>res. evs = run_events cmd cwd res \<and> r = run_result check capture res)
     (run h cmd cwd check capture)"
  unfolding emits_def
proof
  fix s :: "'a state"
  show "\<exists>evs. log (snd (run h cmd cwd check capture s)) = log s @ evs \<and>
     (\<exists>res. evs = run_events cmd cwd res \<and>
        fst (run h cmd cwd check capture s) = run_result check capture res)"
    by (cases "process h cmd cwd (world s)")
       (auto simp: run_def bindM_def print_def emit_def subprocess_run_def run_events_def
             split: sum.splits prod.splits)
qed

lemma run_cases:
  assumes "run h cmd cwd check capture s = (r, s')"
  shows "\<exists>res. log s' = log s @ run_events cmd cwd res \<and> r = run_result check capture res"
  using emitsD[OF run_emits assms] by auto

lemma run_result_ok:
  "run_result True capture res = Inr cp \<Longrightarrow>
     \<exists>out. res = Inr (0, out) \<and> stdout cp = (if capture then Some out else None)"
  by (cases res) (auto split: if_splits)

lemma bindM_cases:
  assumes "bindM m f s = (r, s')"
  obtains (fail) e where "m s = (Inl e, s')" "r = Inl e"
        | (ok) x s1 where "m s = (Inr x, s1)" "f x s1 = (r, s')"
proof -
  obtain r1 s1 where ms: "m s = (r1, s1)" by (cases "m s")
  show thesis
  proof (cases r1)
    case (Inl e)
    then show ?thesis using assms ms fail by (auto simp: bindM_def)
  next
    case (Inr x)
    then show ?thesis using assms ms ok by (auto simp: bindM_def)
  qed
qed

subsection \<open>The steps before the reconciliation\<close>

definition quiet :: "'e host \<Rightarrow> ('a, 'e) prog \<Rightarrow> bool" where
  "quiet h m = emits (\<lambda>r evs. list_all (pre_cmd h) (execs evs)) m"

lemma quiet_returnM: "quiet h (returnM x)"
  by (simp add: quiet_def emits_returnM)

lemma quiet_raiseM: "quiet h (raiseM x)"
  by (simp add: quiet_def emits_raiseM)

lemma quiet_print: "quiet h (print l)"
  by (simp add: quiet_def emits_print)

lemma quiet_bindM: "quiet h m \<Longrightarrow> (\<And>x. quiet h (f x)) \<Longrightarrow> quiet h (bindM m f)"
  unfolding quiet_def
  by (rule emits_bindM[where ?Q1.0="\<lambda>r evs. list_all (pre_cmd h) (execs evs)"
        and ?Q2.0="\<lambda>x r evs. list_all (pre_cmd h) (execs evs)"]) (auto simp: execs_append)

lemma quiet_run: "pre_cmd h cmd \<Longrightarrow> quiet h (run h cmd cwd check capture)"
  unfolding quiet_def by (rule emits_weaken[OF run_emits]) (auto simp: run_events_def)

lemma quiet_get_env: "quiet h (get_env h name d req)"
  unfolding get_env_def Let_def
  by (auto intro!: quiet_bindM quiet_print quiet_raiseM quiet_returnM)

lemma quiet_need: "quiet h (need v)"
  unfolding need_def by (auto intro!: quiet_raiseM quiet_returnM split: option.splits)

lemma quiet_ensure_tool: "quiet h (ensure_tool h ''svn'')"
proof -
  have "emits (\<lambda>r evs. list_all (pre_cmd h) (execs evs)) (ensure_tool h ''svn'')"
    unfolding emits_def
  proof
    fix s :: "'a state"
    obtain r1 s1 where rs: "run h [''svn'', ''--version''] None True False s = (r1, s1)"
      by (cases "run h [''svn'', ''--version''] None True False s")
    have "quiet h (run h [''svn'', ''--version''] None True False)"
      by (rule quiet_run) (simp add: pre_cmd_def)
    from emitsD[OF this[unfolded quiet_def] rs]
    obtain evs where "log s1 = log s @ evs" "list_all (pre_cmd h) (execs evs)" by blast
    then show "\<exists>evs. log (snd (ensure_tool h ''svn'' s)) = log s @ evs \<and>
                list_all (pre_cmd h) (execs evs)"
      using rs
      by (cases r1) (auto simp: ensure_tool_def bindM_def print_def emit_def raiseM_def execs_append)
  qed
  then show ?thesis by (simp add: quiet_def)
qed

lemma quiet_makedirs_wc_root: "quiet h (makedirs_wc_root d)"
  by (auto simp: quiet_def emits_def makedirs_wc_root_def Let_def split: option.splits node.splits)

lemma quiet_mirror_step: "quiet h (mirror_step h sp src d)"
proof (cases "os_name h = ''nt''")
  case True
  have "pre_cmd h (robocopy_cmd sp d)"
    unfolding pre_cmd_def by blast
  with True show ?thesis
    by (auto simp: mirror_step_def intro!: quiet_bindM quiet_run quiet_returnM)
next
  case False
  then show ?thesis
    by (auto simp: mirror_step_def quiet_def emits_def split: sum.splits)
qed

subsection \<open>The reconciliation and the commit decision\<close>

lemma schedule_deletes_cases:
  assumes "schedule_deletes h wc_root ps s = (r, s')"
  shows "(r = Inr () \<and> (\<exists>outs. length outs = length ps \<and>
            log s' = log s @ delete_events wc_root (zip ps outs)))
       \<or> (\<exists>k outs res e. k < length ps \<and> length outs = k \<and>
            run_result True False res = Inl e \<and> r = Inl e \<and>
            log s' = log s @ delete_events wc_root (zip (take k ps) outs)
                     @ Print (''Scheduling delete: '' @ ps ! k)
                       # run_events (rm_cmd (ps ! k)) (Some wc_root) res)"
  using assms
proof (induction ps arbitrary: s)
  case Nil
  then show ?case by (simp add: returnM_def)
next
  case (Cons p ps)
  let ?s1 = "s\<lparr>log := log s @ [Print (''Scheduling delete: '' @ p)]\<rparr>"
  from Cons.prems have step:
    "bindM (run h (rm_cmd p) (Some wc_root) True False) (\<lambda>_. schedule_deletes h wc_root ps) ?s1 = (r, s')"
    by (simp add: bindM_def print_def emit_def)
  from step show ?case
  proof (cases rule: bindM_cases)
    case (fail e)
    from run_cases[OF fail(1)] obtain res where
      res: "log s' = log ?s1 @ run_events (rm_cmd p) (Some wc_root) res" "Inl e = run_result True False res"
      by blast
    have "\<exists>k outs res e. k < length (p # ps) \<and> length outs = k \<and>
            run_result True False res = Inl e \<and> r = Inl e \<and>
            log s' = log s @ delete_events wc_root (zip (take k (p # ps)) outs)
                     @ Print (''Scheduling delete: '' @ (p # ps) ! k)
                       # run_events (rm_cmd ((p # ps) ! k)) (Some wc_root) res"
      using res fail(2) by (intro exI[of _ 0] exI[of _ "[]"] exI[of _ res] exI[of _ e]) simp
    then show ?thesis by blast
  next
    case (ok cp s1)
    from run_cases[OF ok(1)] obtain res where
      res: "log s1 = log ?s1 @ run_events (rm_cmd p) (Some wc_root) res" "Inr cp = run_result True False res"
      by blast
    from run_result_ok[OF res(2)[symmetric]] obtain out where out: "res = Inr (0, out)" by blast
    from Cons.IH[OF ok(2)] show ?thesis
    proof (elim disjE conjE exE)
      fix outs
      assume "r = Inr ()" "length outs = length ps" "log s' = log s1 @ delete_events wc_root (zip ps outs)"
      then have "r = Inr () \<and> length (out # outs) = length (p # ps) \<and>
            log s' = log s @ delete_events wc_root (zip (p # ps) (out # outs))"
        using res(1) out by simp
      then show ?thesis by blast
    next
      fix k outs res' e
      assume a: "k < length ps" "length outs = k" "run_result True False res' = Inl e" "r = Inl e"
        "log s' = log s1 @ delete_events wc_root (zip (take k ps) outs)
                     @ Print (''Scheduling delete: '' @ ps ! k)
                       # run_events (rm_cmd (ps ! k)) (Some wc_root) res'"
      have "Suc k < length (p # ps) \<and> length (out # outs) = Suc k \<and>
            run_result True False res' = Inl e \<and> r = Inl e \<and>
            log s' = log s @ delete_events wc_root (zip (take (Suc k) (p # ps)) (out # outs))
                     @ Print (''Scheduling delete: '' @ (p # ps) ! Suc k)
                       # run_events (rm_cmd ((p # ps) ! Suc k)) (Some wc_root) res'"
        using a res(1) out by simp
      then show ?thesis by blast
    qed
  qed
qed

lemma parse_missing_cases:
  assumes "parse_missing_paths_from_svn_status_xml h wc_root s = (r, s')"
  shows "\<exists>res. log s' = log s @ run_events [''svn'', ''status'', ''--xml''] (Some wc_root) res \<and>
           ((\<exists>e. run_result True True res = Inl e \<and> r = Inl e)
          \<or> (\<exists>out. res = Inr (0, out) \<and> fromstring h out = None \<and> r = Inl ParseError)
          \<or> (\<exists>out root. res = Inr (0, out) \<and> fromstring h out = Some root \<and>
                r = Inr (missing_paths root)))"
  using assms[unfolded parse_missing_paths_from_svn_status_xml_def]
proof (cases rule: bindM_cases)
  case (fail e)
  from run_cases[OF fail(1)] fail(2) show ?thesis by metis
next
  case (ok cp s1)
  from run_cases[OF ok(1)] obtain res where
    res: "log s1 = log s @ run_events [''svn'', ''status'', ''--xml''] (Some wc_root) res"
      "Inr cp = run_result True True res"
    by blast
  from run_result_ok[OF res(2)[symmetric]] obtain out where
    out: "res = Inr (0, out)" "stdout cp = Some out" by auto
  show ?thesis
  proof (cases "fromstring h out")
    case None
    then have "r = Inl ParseError" "s' = s1" using ok(2) out by (auto simp: raiseM_def)
    then show ?thesis using res(1) out None by blast
  next
    case (Some root)
    then have "r = Inr (missing_paths root)" "s' = s1" using ok(2) out by (auto simp: returnM_def)
    then show ?thesis using res(1) out Some by blast
  qed
qed

lemma reconcile_has_trace:
  assumes "reconcile h wc_root s = (r, s')"
  shows "\<exists>evs. log s' = log s @ evs \<and> reconcile_trace h wc_root r evs"
  using assms[unfolded reconcile_def]
proof (cases rule: bindM_cases)
  case (fail e)
  from parse_missing_cases[OF fail(1)] obtain res where
    l: "log s' = log s @ run_events [''svn'', ''status'', ''--xml''] (Some wc_root) res"
    and c: "run_result True True res = Inl e \<or>
            (\<exists>out. res = Inr (0, out) \<and> fromstring h out = None \<and> e = ParseError)"
    by auto
  from c have "reconcile_trace h wc_root (Inl e)
      (run_events [''svn'', ''status'', ''--xml''] (Some wc_root) res)"
    by (auto intro: reconcile_trace.xml_failed reconcile_trace.parse_failed)
  with l fail(2) show ?thesis by blast
next
  case (ok ps s1)
  from parse_missing_cases[OF ok(1)] obtain out root where
    l1: "log s1 = log s @ run_events [''svn'', ''status'', ''--xml''] (Some wc_root) (Inr (0, out))"
    and root: "fromstring h out = Some root" and ps: "ps = missing_paths root"
    by auto
  from ok(2) show ?thesis
  proof (cases rule: bindM_cases)
    case (fail e)
    from schedule_deletes_cases[OF fail(1)] obtain k outs res where
      k: "k < length ps" "length outs = k" "run_result True False res = Inl e"
      and l: "log s' = log s1 @ delete_events wc_root (zip (take k ps) outs)
                     @ Print (''Scheduling delete: '' @ ps ! k)
                       # run_events (rm_cmd (ps ! k)) (Some wc_root) res"
      by auto
    from reconcile_trace.rm_failed[OF root k(1)[unfolded ps] k(2) k(3), of wc_root]
    show ?thesis using l l1 ps fail(2) by auto
  next
    case (ok u s2)
    from schedule_deletes_cases[OF ok(1)] obtain outs where
      outs: "length outs = length ps"
      and l2: "log s2 = log s1 @ delete_events wc_root (zip ps outs)"
      by auto
    from ok(2) show ?thesis
    proof (cases rule: bindM_cases)
      case (fail e)
      from run_cases[OF fail(1)] obtain res where
        res: "log s' = log s2 @ run_events add_cmd (Some wc_root) res"
          "Inl e = run_result True False res"
        by blast
      from reconcile_trace.add_failed[OF root outs[unfolded ps] res(2)[symmetric], of wc_root]
      show ?thesis using res(1) l2 l1 ps fail(2) by auto
    next
      case (ok cp s3)
      from run_cases[OF ok(1)] obtain res where
        res: "log s3 = log s2 @ run_events add_cmd (Some wc_root) res"
          "Inr cp = run_result True False res"
        by blast
      from run_result_ok[OF res(2)[symmetric]] obtain out' where out': "res = Inr (0, out')" by blast
      have "r = Inr ()" "s' = s3" using ok(2) by (auto simp: returnM_def)
      with reconcile_trace.reconciled[OF root outs[unfolded ps], of wc_root out']
      show ?thesis using res(1) out' l2 l1 ps by auto
    qed
  qed
qed

lemma commit_decision_has_trace:
  assumes "commit_decision h wc_root msg (environ h ''SVN_USERNAME'') (environ h ''SVN_PASSWORD'') s = (r, s')"
  shows "\<exists>evs. log s' = log s @ evs \<and> commit_trace h wc_root msg r evs"
proof -
  let ?st = "[''svn'', ''status'']"
  let ?cc = "commit_cmd msg (environ h ''SVN_USERNAME'') (environ h ''SVN_PASSWORD'')"
  from assms[unfolded commit_decision_def] show ?thesis
  proof (cases rule: bindM_cases)
    case (fail e)
    from fail(1)[unfolded get_pending_status_def] show ?thesis
    proof (cases rule: bindM_cases)
      case (fail e')
      from run_cases[OF fail(1)] obtain res where
        res: "log s' = log s @ run_events ?st (Some wc_root) res" "Inl e' = run_result True True res"
        by blast
      have "commit_trace h wc_root msg r (run_events ?st (Some wc_root) res)"
        using res(2) \<open>r = Inl e\<close> fail(2) by (auto intro: commit_trace.status_failed)
      with res(1) show ?thesis by blast
    next
      case (ok cp s1)
      from run_cases[OF ok(1)] obtain res where
        res: "log s1 = log s @ run_events ?st (Some wc_root) res" "Inr cp = run_result True True res"
        by blast
      from run_result_ok[OF res(2)[symmetric]] have "stdout cp \<noteq> None" by auto
      then show ?thesis using ok(2) by (auto simp: Let_def returnM_def)
    qed
  next
    case (ok x s1)
    obtain status_text has_changes where x: "x = (status_text, has_changes)" by (cases x)
    from ok(1)[unfolded get_pending_status_def] obtain out where
      out: "log s1 = log s @ run_events ?st (Some wc_root) (Inr (0, out))"
        "status_text = strip out" "has_changes = (strip out \<noteq> [])"
    proof (cases rule: bindM_cases)
      case (fail e)
      then show ?thesis by simp
    next
      case (ok cp s0)
      from run_cases[OF ok(1)] obtain res where
        res: "log s0 = log s @ run_events ?st (Some wc_root) res" "Inr cp = run_result True True res"
        by blast
      from run_result_ok[OF res(2)[symmetric]] obtain out where
        "res = Inr (0, out)" "stdout cp = Some out" by auto
      then show ?thesis using ok(2) res(1) x that[of out]
        by (auto simp: Let_def returnM_def)
    qed
    let ?s2 = "s1\<lparr>log := log s1 @ [Print (status_summary status_text)]\<rparr>"
    have rest: "(if \<not> has_changes then print ''No changes detected. Skipping commit.''
           else bindM (run h ?cc (Some wc_root) True False)
                  (\<lambda>_. print ([CHR 0x0A] @ ''Commit finished successfully.''))) ?s2 = (r, s')"
      using ok(2) x by (simp add: bindM_def print_def emit_def status_summary_def)
    show ?thesis
    proof (cases has_changes)
      case False
      then have "r = Inr ()" "log s' = log ?s2 @ [Print ''No changes detected. Skipping commit.'']"
        using rest by (auto simp: print_def emit_def)
      then have "log s' = log s @ run_events ?st (Some wc_root) (Inr (0, out)) @
              [Print (status_summary []), Print ''No changes detected. Skipping commit.'']"
          and "r = Inr ()" and e: "strip out = []"
        using out False by auto
      with commit_trace.no_changes[OF e, of h wc_root msg] show ?thesis by blast
    next
      case True
      then have "bindM (run h ?cc (Some wc_root) True False)
                  (\<lambda>_. print ([CHR 0x0A] @ ''Commit finished successfully.'')) ?s2 = (r, s')"
        using rest by simp
      then show ?thesis
      proof (cases rule: bindM_cases)
        case (fail e)
        from run_cases[OF fail(1)] obtain res' where
          "log s' = log ?s2 @ run_events ?cc (Some wc_root) res'" "Inl e = run_result True False res'"
          by blast
        then have "log s' = log s @ run_events ?st (Some wc_root) (Inr (0, out)) @
                [Print (status_summary (strip out))] @ run_events ?cc (Some wc_root) res'"
          and ne: "strip out \<noteq> []" and rr: "run_result True False res' = Inl e" and "r = Inl e"
          using out True fail(2) by auto
        with commit_trace.commit_failed[OF ne rr, of h wc_root msg] show ?thesis by blast
      next
        case (ok cp s3)
        from run_cases[OF ok(1)] obtain res' where
          res': "log s3 = log ?s2 @ run_events ?cc (Some wc_root) res'" "Inr cp = run_result True False res'"
          by blast
        from run_result_ok[OF res'(2)[symmetric]] obtain out' where "res' = Inr (0, out')" by blast
        then have "log s' = log s @ run_events ?st (Some wc_root) (Inr (0, out)) @
                [Print (status_summary (strip out))] @ run_events ?cc (Some wc_root) (Inr (0, out')) @
                [Print ([CHR 0x0A] @ ''Commit finished successfully.'')]"
          and ne: "strip out \<noteq> []" and "r = Inr ()"
          using out True ok(2) res'(1) by (auto simp: print_def emit_def)
        with commit_trace.committed[OF ne, of h wc_root msg out'] show ?thesis by blast
      qed
    qed
  qed
qed

subsection \<open>The whole run\<close>

definition traced :: "'e host \<Rightarrow> (unit, 'e) prog \<Rightarrow> bool" where
  "traced h m = (\<forall>s r s'. m s = (r, s') \<longrightarrow> (\<exists>evs. log s' = log s @ evs \<and> main_trace h r evs))"

lemma main_trace_prepend:
  assumes "main_trace h r evs" and "list_all (pre_cmd h) (execs A)"
  shows "main_trace h r (A @ evs)"
  using assms(1)
proof (cases rule: main_trace.cases)
  case (early e)
  then show ?thesis using assms(2) by (auto intro!: main_trace.early simp: execs_append)
next
  case (in_reconcile A' wc_root e B)
  have "main_trace h (Inl e) ((A @ A') @ B)"
    by (rule main_trace.in_reconcile[OF _ in_reconcile(4)])
       (use assms(2) in_reconcile(3) in \<open>simp add: execs_append\<close>)
  then show ?thesis using in_reconcile by simp
next
  case (decided A' wc_root B msg C)
  have "main_trace h r ((A @ A') @ B @ C)"
    by (rule main_trace.decided[OF _ decided(3) decided(4)])
       (use assms(2) decided(2) in \<open>simp add: execs_append\<close>)
  then show ?thesis using decided by simp
qed

lemma traced_bindM:
  assumes m: "quiet h m" and f: "\<And>x. traced h (f x)"
  shows "traced h (bindM m f)"
  unfolding traced_def
proof (intro allI impI)
  fix s r s'
  assume "bindM m f s = (r, s')"
  then show "\<exists>evs. log s' = log s @ evs \<and> main_trace h r evs"
  proof (cases rule: bindM_cases)
    case (fail e)
    from emitsD[OF m[unfolded quiet_def] fail(1)] fail(2) show ?thesis
      by (auto intro: main_trace.early)
  next
    case (ok x s1)
    from emitsD[OF m[unfolded quiet_def] ok(1)]
    obtain A where A: "log s1 = log s @ A" "list_all (pre_cmd h) (execs A)" by blast
    from f ok(2) obtain evs where e: "log s' = log s1 @ evs" "main_trace h r evs"
      unfolding traced_def by blast
    from main_trace_prepend[OF e(2) A(2)] A(1) e(1) show ?thesis by auto
  qed
qed

lemma traced_raiseM: "traced h (raiseM e)"
  unfolding traced_def raiseM_def
  using main_trace.early[of h "[]" e] by auto

lemma traced_tail:
  "traced h (bindM (reconcile h wc_root) (\<lambda>_.
     commit_decision h wc_root msg (environ h ''SVN_USERNAME'') (environ h ''SVN_PASSWORD'')))"
  unfolding traced_def
proof (intro allI impI)
  fix s r s'
  assume "bindM (reconcile h wc_root) (\<lambda>_.
     commit_decision h wc_root msg (environ h ''SVN_USERNAME'') (environ h ''SVN_PASSWORD'')) s = (r, s')"
  then show "\<exists>evs. log s' = log s @ evs \<and> main_trace h r evs"
  proof (cases rule: bindM_cases)
    case (fail e)
    from reconcile_has_trace[OF fail(1)] obtain B where
      B: "log s' = log s @ B" "reconcile_trace h wc_root (Inl e) B" by blast
    from main_trace.in_reconcile[of h "[]", OF _ B(2)] B(1) fail(2) show ?thesis by auto
  next
    case (ok x s1)
    from reconcile_has_trace[OF ok(1)] obtain B where
      B: "log s1 = log s @ B" "reconcile_trace h wc_root (Inr ()) B" by auto
    from commit_decision_has_trace[OF ok(2)] obtain C where
      C: "log s' = log s1 @ C" "commit_trace h wc_root msg r C" by blast
    from main_trace.decided[of h "[]", OF _ B(2) C(2)] B(1) C(1) show ?thesis by auto
  qed
qed

lemma get_env_value:
  "get_env h name None req s = (Inr v, s') \<Longrightarrow> v = environ h name"
  by (auto simp: get_env_def Let_def returnM_def bindM_def print_def emit_def raiseM_def
        split: option.splits if_splits)

lemma traced_bindM_get_env:
  assumes "traced h (f (environ h name))"
  shows "traced h (bindM (get_env h name None req) f)"
  unfolding traced_def
proof (intro allI impI)
  fix s r s'
  assume run: "bindM (get_env h name None req) f s = (r, s')"
  have t: "traced h (bindM (get_env h name None req) (\<lambda>_. f (environ h name)))"
    by (rule traced_bindM[OF quiet_get_env]) (rule assms)
  from run have "bindM (get_env h name None req) (\<lambda>_. f (environ h name)) s = (r, s')"
  proof (cases rule: bindM_cases)
    case (fail e)
    then show ?thesis by (simp add: bindM_def)
  next
    case (ok x s1)
    with get_env_value[OF ok(1)] show ?thesis by (simp add: bindM_def)
  qed
  with t show "\<exists>evs. log s' = log s @ evs \<and> main_trace h r evs"
    unfolding traced_def by blast
qed

lemma traced_sync:
  "traced h (sync h source_path src svn_url (environ h ''SVN_USERNAME'') (environ h ''SVN_PASSWORD'') msg)"
proof -
  have c: "\<And>wc_root. pre_cmd h (checkout_cmd svn_url wc_root (environ h ''SVN_USERNAME'') (environ h ''SVN_PASSWORD''))"
    unfolding pre_cmd_def by blast
  have u: "pre_cmd h [''svn'', ''update'']"
    unfolding pre_cmd_def by blast
  have w: "quiet h (if os_name h = ''nt'' then returnM ()
            else print ''WARNING: Non-Windows OS detected; falling back to Python copy (slower).'')"
    by (simp add: quiet_returnM quiet_print)
  show ?thesis
    unfolding sync_def Let_def
    by (intro traced_bindM[OF w] traced_bindM[OF quiet_makedirs_wc_root] traced_bindM[OF quiet_print]
          traced_bindM[OF quiet_run[OF c]] traced_bindM[OF quiet_run[OF u]]
          traced_bindM[OF quiet_mirror_step] traced_tail)
qed

lemma traced_main: "traced h (main h)"
  unfolding main_def Let_def
  apply (rule traced_bindM_get_env)
  apply (rule traced_bindM[OF quiet_need])
  apply (rule traced_bindM_get_env)
  apply (rule traced_bindM[OF quiet_need])
  apply (rule traced_bindM_get_env)
  apply (rule traced_bindM_get_env)
  apply (rule traced_bindM_get_env)
  apply (cases "source h")
   apply (simp, rule traced_bindM[OF quiet_print], rule traced_raiseM)
  apply (simp, rule traced_bindM[OF quiet_ensure_tool], rule traced_sync)
  done

lemma main_has_trace:
  assumes "main h s = (r, s')"
  shows "\<exists>evs. log s' = log s @ evs \<and> main_trace h r evs"
  using traced_main assms unfolding traced_def by blast

lemma execs_run_events [simp]: "execs (run_events cmd cwd res) = [cmd]"
  by (simp add: run_events_def)

lemma execs_delete_events:
  "length outs = length ps \<Longrightarrow> execs (delete_events wc_root (zip ps outs)) = map rm_cmd ps"
  by (induction ps outs rule: list_induct2') (auto simp: execs_append)

lemma execs_delete_events_take:
  "length outs = k \<Longrightarrow> k \<le> length ps \<Longrightarrow>
     execs (delete_events wc_root (zip (take k ps) outs)) = map rm_cmd (take k ps)"
  by (rule execs_delete_events) simp

lemma Exec_in_execs: "Exec c d x \<in> set evs \<Longrightarrow> c \<in> set (execs evs)"
  by (induction evs rule: execs.induct) auto

lemma delete_events_results:
  "Exec c d x \<in> set (delete_events wc_root xs) \<Longrightarrow> \<exists>out. x = Inr (0, out)"
  by (induction xs) (auto simp: run_events_def)

lemma subcommand_rm_cmd [simp]: "subcommand c (rm_cmd p) = (c = ''rm'')"
  by (auto simp: subcommand_def rm_cmd_def)

lemma subcommand_add_cmd [simp]: "subcommand c add_cmd = (c = ''add'')"
  by (auto simp: subcommand_def add_cmd_def)

lemma subcommand_commit_cmd [simp]: "subcommand c (commit_cmd msg u p) = (c = ''commit'')"
  by (auto simp: subcommand_def commit_cmd_def)

lemma subcommand_checkout_cmd [simp]: "subcommand c (checkout_cmd url d u p) = (c = ''checkout'')"
  by (auto simp: subcommand_def checkout_cmd_def)

lemma subcommand_status [simp]:
  "subcommand c [''svn'', ''status''] = (c = ''status'')"
  "subcommand c [''svn'', ''status'', ''--xml''] = (c = ''status'')"
  by (auto simp: subcommand_def)

lemma pre_cmd_subcommand:
  "pre_cmd h cmd \<Longrightarrow> subcommand c cmd \<Longrightarrow> c = ''--version'' \<or> c = ''checkout'' \<or> c = ''update''"
  by (auto simp: pre_cmd_def subcommand_def checkout_cmd_def robocopy_cmd_def)

lemma filter_rm_map_rm_cmd [simp]: "filter (subcommand ''rm'') (map rm_cmd ps) = map rm_cmd ps"
  by (induction ps) auto

lemma filter_pre_cmd:
  assumes "list_all (pre_cmd h) cs" and "\<And>c. P c \<Longrightarrow> \<not> pre_cmd h c"
  shows "filter P cs = []"
  using assms by (induction cs) auto

text \<open>The commands of the three kinds of traces.\<close>

lemma reconcile_trace_execs:
  assumes "reconcile_trace h wc_root r B"
  shows "\<exists>ps. execs B = [''svn'', ''status'', ''--xml''] # map rm_cmd ps \<or>
              execs B = [''svn'', ''status'', ''--xml''] # map rm_cmd ps @ [add_cmd]"
  using assms
proof (cases rule: reconcile_trace.cases)
  case (xml_failed res e)
  then show ?thesis by (intro exI[of _ "[]"]) simp
next
  case (parse_failed out)
  then show ?thesis by (intro exI[of _ "[]"]) simp
next
  case (rm_failed out root k outs res e)
  then show ?thesis
    by (intro exI[of _ "take (Suc k) (missing_paths root)"])
       (simp add: execs_append execs_delete_events_take take_Suc_conv_app_nth)
next
  case (add_failed out root outs res e)
  then show ?thesis
    by (intro exI[of _ "missing_paths root"]) (simp add: execs_append execs_delete_events)
next
  case (reconciled out root outs out')
  then show ?thesis
    by (intro exI[of _ "missing_paths root"]) (simp add: execs_append execs_delete_events)
qed

lemma commit_trace_execs:
  assumes "commit_trace h wc_root msg r C"
  shows "execs C = [[''svn'', ''status'']] \<or>
         execs C = [[''svn'', ''status''],
                    commit_cmd msg (environ h ''SVN_USERNAME'') (environ h ''SVN_PASSWORD'')]"
  using assms by (cases rule: commit_trace.cases) (auto simp: execs_append)

lemma drop6_checkout: "drop 6 (checkout_cmd url d u p) = credentials u p"
  by (simp add: checkout_cmd_def)

lemma drop6_commit: "drop 6 (commit_cmd msg u p) = credentials u p"
  by (simp add: commit_cmd_def)

lemma main_trace_execs:
  assumes "main_trace h r evs" and "cmd \<in> set (execs evs)"
  shows "pre_cmd h cmd \<or> cmd = [''svn'', ''status'', ''--xml''] \<or> (\<exists>p. cmd = rm_cmd p) \<or> cmd = add_cmd
       \<or> cmd = [''svn'', ''status'']
       \<or> (\<exists>msg. cmd = commit_cmd msg (environ h ''SVN_USERNAME'') (environ h ''SVN_PASSWORD''))"
  using assms(1)
proof (cases rule: main_trace.cases)
  case (early e)
  then show ?thesis using assms(2) by (auto simp: list_all_iff)
next
  case (in_reconcile A wc_root e B)
  from reconcile_trace_execs[OF in_reconcile(4)] in_reconcile(1,2,3) assms(2)
  show ?thesis by (auto simp: execs_append list_all_iff)
next
  case (decided A wc_root B msg C)
  from reconcile_trace_execs[OF decided(3)] commit_trace_execs[OF decided(4)] decided(1,2) assms(2)
  show ?thesis by (auto simp: execs_append list_all_iff)
qed

lemma Exec_in_run_events:
  "Exec c d x \<in> set (run_events cmd cwd res) \<longleftrightarrow> c = cmd \<and> d = cwd \<and> x = res"
  by (auto simp: run_events_def)

lemma Exec_in_delete_events:
  "Exec c d x \<in> set (delete_events wc_root xs) \<Longrightarrow> subcommand ''rm'' c"
  by (induction xs) (auto simp: run_events_def)

lemma Exec_in_reconcile_trace:
  assumes "reconcile_trace h wc_root r B" and "Exec c d x \<in> set B"
  shows "c = [''svn'', ''status'', ''--xml''] \<or> subcommand ''rm'' c \<or> c = add_cmd"
  using reconcile_trace_execs[OF assms(1)] Exec_in_execs[OF assms(2)] by auto

lemma Exec_in_pre:
  assumes "list_all (pre_cmd h) (execs A)" and "Exec c d x \<in> set A"
  shows "pre_cmd h c"
  using assms Exec_in_execs[OF assms(2)] by (auto simp: list_all_iff)

lemma pre_cmd_not_late [simp]:
  "\<not> pre_cmd h [''svn'', ''status'']"
  "\<not> pre_cmd h [''svn'', ''status'', ''--xml'']"
  "\<not> pre_cmd h (rm_cmd p)"
  "\<not> pre_cmd h add_cmd"
  "\<not> pre_cmd h (commit_cmd msg u pw)"
  by (auto simp: pre_cmd_def checkout_cmd_def robocopy_cmd_def rm_cmd_def add_cmd_def commit_cmd_def)



lemma not_in_pre:
  assumes "list_all (pre_cmd h) (execs A)" and "\<not> pre_cmd h c"
  shows "Exec c d x \<notin> set A"
  using assms Exec_in_execs[of c d x A] by (auto simp: list_all_iff)


lemma unique_split:
  assumes "xs @ e # ys = pre @ e' # post" and "Q e'"
    and "\<forall>x \<in> set xs. \<not> Q x" and "\<forall>y \<in> set ys. \<not> Q y"
  shows "pre = xs \<and> e' = e \<and> post = ys"
  using assms
proof (induction xs arbitrary: pre)
  case Nil
  then show ?case by (cases pre) auto
next
  case (Cons x xs)
  then show ?case by (cases pre) auto
qed

lemma exec_of_simps [simp]:
  "exec_of P (Exec c d x) = P c" "exec_of P (Print l) = False" "exec_of P (Makedirs p) = False"
  by (simp_all add: exec_of_def)

lemma no_exec_of_iff: "(\<forall>e \<in> set evs. \<not> exec_of P e) \<longleftrightarrow> filter P (execs evs) = []"
  by (induction evs rule: execs.induct) auto

lemma filter_pre_none:
  assumes "list_all (pre_cmd h) cs"
    and "c \<noteq> ''--version''" "c \<noteq> ''checkout''" "c \<noteq> ''update''"
  shows "filter (subcommand c) cs = []"
  using assms by (induction cs) (auto dest: pre_cmd_subcommand)

lemma filter_commit_trace:
  assumes "commit_trace h wc_root msg r C" and "c \<noteq> ''status''" "c \<noteq> ''commit''"
  shows "filter (subcommand c) (execs C) = []"
  using commit_trace_execs[OF assms(1)] assms(2,3) by auto

lemma filter_rm_cmds [simp]:
  "c \<noteq> ''rm'' \<Longrightarrow> filter (subcommand c) (map rm_cmd ps) = []"
  by (induction ps) auto

lemma reconcile_trace_add:
  assumes "reconcile_trace h wc_root r B"
  shows "filter (subcommand ''add'') (execs B) = [] \<or>
    (\<exists>out root outs res. fromstring h out = Some root \<and>
       length outs = length (missing_paths root) \<and>
       B = run_events [''svn'', ''status'', ''--xml''] (Some wc_root) (Inr (0, out)) @
           delete_events wc_root (zip (missing_paths root) outs) @
           run_events add_cmd (Some wc_root) res)"
  using assms
proof (cases rule: reconcile_trace.cases)
  case (xml_failed res e)
  then show ?thesis by simp
next
  case (parse_failed out)
  then show ?thesis by simp
next
  case (rm_failed out root k outs res e)
  have "execs (delete_events wc_root (zip (take k (missing_paths root)) outs))
          = map rm_cmd (take k (missing_paths root))"
    using rm_failed(4,5) by (intro execs_delete_events_take) simp_all
  then show ?thesis using rm_failed(2) by (simp add: execs_append)
next
  case (add_failed out root outs res e)
  then show ?thesis by blast
next
  case (reconciled out root outs out')
  then show ?thesis by blast
qed

text \<open>
  A trace in which \<open>svn add\<close> was started: where it stands, and what stands before
  and after it.
\<close>

lemma main_trace_add:
  assumes tr: "main_trace h r evs"
    and split: "evs = pre @ Exec cmd cwd res # post" and add: "subcommand ''add'' cmd"
  shows "\<exists>A wc_root out root outs.
           list_all (pre_cmd h) (execs A) \<and> fromstring h out = Some root \<and>
           length outs = length (missing_paths root) \<and>
           pre = A @ run_events [''svn'', ''status'', ''--xml''] (Some wc_root) (Inr (0, out)) @
                 delete_events wc_root (zip (missing_paths root) outs) @
                 [Print (trace_line add_cmd (Some wc_root))] \<and>
           filter (subcommand ''rm'') (execs post) = []"
proof -
  let ?Q = "exec_of (subcommand ''add'')"
  have Q: "?Q (Exec cmd cwd res)" using add by simp
  have in_evs: "filter (subcommand ''add'') (execs evs) \<noteq> []"
    using split add by (simp add: execs_append)
  have del_no: "\<forall>x \<in> set (delete_events wc_root xs). \<not> ?Q x" for wc_root xs
    by (induction xs) (auto simp: run_events_def)
  have here: ?thesis
    if A: "list_all (pre_cmd h) (execs A)"
      and B: "reconcile_trace h wc_root r' B"
      and evs: "evs = A @ B @ C"
      and C: "filter (subcommand ''add'') (execs C) = []" "filter (subcommand ''rm'') (execs C) = []"
    for A wc_root r' B C
  proof -
    have noA: "filter (subcommand ''add'') (execs A) = []"
      using filter_pre_none[OF A, of "''add''"] by simp
    from reconcile_trace_add[OF B] in_evs noA C(1) evs obtain out root outs res0 where
      root: "fromstring h out = Some root" and outs: "length outs = length (missing_paths root)"
      and Beq: "B = run_events [''svn'', ''status'', ''--xml''] (Some wc_root) (Inr (0, out)) @
           delete_events wc_root (zip (missing_paths root) outs) @
           run_events add_cmd (Some wc_root) res0"
      by (auto simp: execs_append)
    let ?xs = "A @ run_events [''svn'', ''status'', ''--xml''] (Some wc_root) (Inr (0, out)) @
                 delete_events wc_root (zip (missing_paths root) outs) @
                 [Print (trace_line add_cmd (Some wc_root))]"
    have eq: "?xs @ Exec add_cmd (Some wc_root) res0 # C = pre @ Exec cmd cwd res # post"
      using evs Beq split by (simp add: run_events_def)
    have no1: "\<forall>x \<in> set ?xs. \<not> ?Q x"
    proof -
      have "\<forall>x \<in> set A. \<not> ?Q x" using noA by (simp add: no_exec_of_iff)
      moreover have "\<forall>x \<in> set (run_events [''svn'', ''status'', ''--xml''] (Some wc_root) (Inr (0, out))). \<not> ?Q x"
        by (simp add: run_events_def)
      ultimately show ?thesis using del_no[of wc_root "zip (missing_paths root) outs"] by auto
    qed
    have no2: "\<forall>y \<in> set C. \<not> ?Q y" using C(1) by (simp add: no_exec_of_iff)
    from unique_split[OF eq Q no1 no2] have "pre = ?xs" "post = C" by simp_all
    with A root outs C(2) show ?thesis by blast
  qed
  from tr show ?thesis
  proof (cases rule: main_trace.cases)
    case (early e)
    from filter_pre_none[OF early(2), of "''add''"] in_evs show ?thesis by simp
  next
    case (in_reconcile A wc_root e B)
    show ?thesis
      by (rule here[OF in_reconcile(3,4), of "[]"]) (simp_all add: in_reconcile(2))
  next
    case (decided A wc_root B msg C)
    show ?thesis
      by (rule here[OF decided(2,3), of C])
         (simp_all add: decided(1) filter_commit_trace[OF decided(4)])
  qed
qed

lemma xml_not_in_delete_events:
  "Exec [''svn'', ''status'', ''--xml''] d x \<notin> set (delete_events wc_root xs)"
  using Exec_in_delete_events[of "[''svn'', ''status'', ''--xml'']" d x wc_root xs] by auto

lemma xml_not_in_commit_trace:
  assumes "commit_trace h wc_root msg r C"
  shows "Exec [''svn'', ''status'', ''--xml''] d x \<notin> set C"
  using commit_trace_execs[OF assms] Exec_in_execs[of "[''svn'', ''status'', ''--xml'']" d x C]
  by (auto simp: commit_cmd_def)

lemma reconcile_trace_parse:
  assumes B: "reconcile_trace h wc_root r B"
    and ev: "Exec [''svn'', ''status'', ''--xml''] d (Inr (rc, out)) \<in> set B"
    and bad: "fromstring h out = None"
  shows "(\<exists>e. r = Inl e) \<and> (rc = 0 \<longrightarrow> r = Inl ParseError) \<and>
         execs B = [[''svn'', ''status'', ''--xml'']]"
  using B
proof (cases rule: reconcile_trace.cases)
  case (xml_failed res e)
  with ev have "res = Inr (rc, out)" by (simp add: Exec_in_run_events)
  with xml_failed show ?thesis by (auto split: if_splits)
next
  case (parse_failed out0)
  then show ?thesis by simp
next
  case (rm_failed out0 root k outs res e)
  with ev xml_not_in_delete_events have "out = out0"
    by (auto simp: Exec_in_run_events rm_cmd_def)
  with rm_failed(3) bad show ?thesis by simp
next
  case (add_failed out0 root outs res e)
  with ev xml_not_in_delete_events have "out = out0"
    by (auto simp: Exec_in_run_events add_cmd_def)
  with add_failed(3) bad show ?thesis by simp
next
  case (reconciled out0 root outs out')
  with ev xml_not_in_delete_events have "out = out0"
    by (auto simp: Exec_in_run_events add_cmd_def)
  with reconciled(3) bad show ?thesis by simp
qed

lemma strip_all_space:
  assumes "\<forall>c \<in> set out. isspace c"
  shows "strip out = []"
proof -
  have "dropWhile isspace xs = []" if "\<forall>c \<in> set xs. isspace c" for xs
    using that by (induction xs) auto
  from this[OF assms] have d: "dropWhile isspace out = []" .
  show ?thesis unfolding strip_def d by simp
qed

lemma get_pending_status_result:
  assumes "process h [''svn'', ''status''] (Some wc_root) (world s) = Inr ((0, out), w)"
  shows "get_pending_status h wc_root s =
     (Inr (strip out, strip out \<noteq> []),
      s\<lparr>world := w, log := log s @ run_events [''svn'', ''status''] (Some wc_root) (Inr (0, out))\<rparr>)"
  using assms
  by (simp add: get_pending_status_def run_def bindM_def print_def emit_def subprocess_run_def
        returnM_def run_events_def Let_def)

subsection \<open>The scenario runs\<close>

lemmas run_simps = main_def sync_def bindM_def returnM_def raiseM_def print_def emit_def get_env_def
  need_def truthy_def ensure_tool_def run_def subprocess_run_def makedirs_wc_root_def
  mirror_step_def portable_mirror_def reconcile_def parse_missing_paths_from_svn_status_xml_def
  get_pending_status_def commit_decision_def checkout_cmd_def commit_cmd_def credentials_def
  rm_cmd_def missing_paths_def findall_descendants_def find_child_def get_attr_def get_attr_default_def
  scandir_def copy2_def isdir_def Let_def mirror_def add_cmd_def
  trace_line_def delete_extras_def path_exists_def os_remove_def rmtree_ignore_errors_def

lemmas scenario_simps = scenario_def fresh_def status_document_def scenario_prefix_def
  status_summary_def run_simps

lemma scenario_run_changes:
  assumes "strip pending \<noteq> []"
  shows "main (scenario True ''<status/>'' pending) fresh =
     (Inr (),
      \<lparr>world = \<lparr>working_copy = Some (Dir [(''a.txt'', File ''A'')]), ext = ()\<rparr>,
       log = scenario_prefix @
         [Print ''> svn status  (cwd=/tmp/svn-wc-1)'',
          Exec [''svn'', ''status''] (Some ''/tmp/svn-wc-1'') (Inr (0, pending)),
          Print (status_summary (strip pending)),
          Print ''> svn commit -m sync --non-interactive --trust-server-cert --username u --password p --no-auth-cache  (cwd=/tmp/svn-wc-1)'',
          Exec [''svn'', ''commit'', ''-m'', ''sync'', ''--non-interactive'',
                ''--trust-server-cert'', ''--username'', ''u'', ''--password'', ''p'', ''--no-auth-cache'']
            (Some ''/tmp/svn-wc-1'') (Inr (0, [])),
          Print ([CHR 0x0A] @ ''Commit finished successfully.'')]\<rparr>)"
  using assms
  by (simp add: scenario_simps)


lemma strip_examples: "strip ''D old.txt'' = ''D old.txt''" "strip [] = []" "strip [CHR 0x0A] = []"
  by (simp_all add: strip_def isspace_def)

lemma scenario_run_bad_xml:
  "main (scenario True ''<bad'' pending) fresh =
     (Inl ParseError,
      \<lparr>world = \<lparr>working_copy = Some (Dir [(''a.txt'', File ''A'')]), ext = ()\<rparr>,
       log = take 10 scenario_prefix @
         [Exec [''svn'', ''status'', ''--xml''] (Some ''/tmp/svn-wc-1'') (Inr (0, ''<bad''))]\<rparr>)"
  by (simp add: scenario_simps)

lemma scenario_execs_changes:
  "execs (log (snd (main (scenario True ''<status/>'' ''D old.txt'') fresh))) =
     [[''svn'', ''--version''],
      [''svn'', ''checkout'', ''http://svn/r'', ''/tmp/svn-wc-1'', ''--non-interactive'',
       ''--trust-server-cert'', ''--username'', ''u'', ''--password'', ''p'', ''--no-auth-cache''],
      [''svn'', ''update''],
      [''svn'', ''status'', ''--xml''],
      [''svn'', ''rm'', ''--force'', ''old.txt''],
      add_cmd,
      [''svn'', ''status''],
      [''svn'', ''commit'', ''-m'', ''sync'', ''--non-interactive'',
       ''--trust-server-cert'', ''--username'', ''u'', ''--password'', ''p'', ''--no-auth-cache'']]"
  by (subst scenario_run_changes) (simp_all add: strip_examples scenario_prefix_def)

text \<open>A tool that cannot be started: \<open>ensure_tool\<close> reports it and raises.\<close>

lemma ensure_tool_not_started:
  assumes "process h [name, ''--version''] None (world s) = Inl e"
  shows "ensure_tool h name s =
     (Inl (OSError e),
      s\<lparr>log := log s @ run_events [name, ''--version''] None (Inl e) @
                 [Print (''ERROR: Required tool not found: '' @ name)]\<rparr>)"
  using assms
  by (simp add: ensure_tool_def run_def subprocess_run_def bindM_def print_def emit_def raiseM_def
        run_events_def)

text \<open>The run on the document with the empty path.\<close>

lemma empty_path_scenario_run:
  "main empty_path_scenario fresh =
     (Inr (),
      \<lparr>world = \<lparr>working_copy = Some (Dir [(''a.txt'', File ''A'')]), ext = ()\<rparr>,
       log = scenario_prefix @
         [Print ''> svn status  (cwd=/tmp/svn-wc-1)'',
          Exec [''svn'', ''status''] (Some ''/tmp/svn-wc-1'') (Inr (0, ''D old.txt'')),
          Print (status_summary ''D old.txt''),
          Print ''> svn commit -m sync --non-interactive --trust-server-cert --username u --password p --no-auth-cache  (cwd=/tmp/svn-wc-1)'',
          Exec [''svn'', ''commit'', ''-m'', ''sync'', ''--non-interactive'',
                ''--trust-server-cert'', ''--username'', ''u'', ''--password'', ''p'', ''--no-auth-cache'']
            (Some ''/tmp/svn-wc-1'') (Inr (0, [])),
          Print ([CHR 0x0A] @ ''Commit finished successfully.'')]\<rparr>)"
  by (simp add: empty_path_scenario_def empty_path_document_def scenario_simps strip_examples)

subsection \<open>The paths the parser returns and the removes of a run\<close>

lemma collect_missing_set:
  "set (collect_missing es acc) =
     set acc \<union> {p. p \<noteq> [] \<and> (\<exists>e \<in> set es. item_state e = Some ''missing'' \<and> get_attr e ''path'' = Some p)}"
proof (induction es arbitrary: acc)
  case Nil
  then show ?case by simp
next
  case (Cons e es)
  show ?case
    by (cases "find_child ''wc-status'' e"; cases "get_attr e ''path''")
       (auto simp: Cons.IH item_state_def)
qed

lemma missing_paths_set:
  "set (missing_paths root) =
     {p. p \<noteq> [] \<and>
         (\<exists>e \<in> set (findall_descendants ''entry'' root).
            item_state e = Some ''missing'' \<and> get_attr e ''path'' = Some p)}"
proof -
  have "set (missing_paths root) =
      set [] \<union> {p. p \<noteq> [] \<and>
         (\<exists>e \<in> set (findall_descendants ''entry'' root).
            item_state e = Some ''missing'' \<and> get_attr e ''path'' = Some p)}"
    unfolding missing_paths_def by (rule collect_missing_set)
  then show ?thesis by simp
qed

lemma Exec_in_delete_events_path:
  "Exec c d x \<in> set (delete_events wc_root xs) \<Longrightarrow> \<exists>p \<in> fst ` set xs. c = rm_cmd p"
  by (induction xs) (auto simp: run_events_def)

lemma delete_events_has_rm:
  "length outs = length ps \<Longrightarrow> p \<in> set ps \<Longrightarrow>
     \<exists>out. Exec (rm_cmd p) (Some wc_root) (Inr (0, out)) \<in> set (delete_events wc_root (zip ps outs))"
  by (induction ps outs rule: list_induct2') (auto simp: run_events_def)

lemma reconcile_trace_rm:
  assumes "reconcile_trace h wc_root r B" and "Exec c d x \<in> set B" and "subcommand ''rm'' c"
  shows "\<exists>out root p. Exec [''svn'', ''status'', ''--xml''] (Some wc_root) (Inr (0, out)) \<in> set B \<and>
           fromstring h out = Some root \<and> p \<in> set (missing_paths root) \<and> c = rm_cmd p"
  using assms(1)
proof (cases rule: reconcile_trace.cases)
  case (xml_failed res e)
  with assms(2,3) show ?thesis by (auto simp: run_events_def)
next
  case (parse_failed out)
  with assms(2,3) show ?thesis by (auto simp: run_events_def)
next
  case (rm_failed out root k outs res e)
  have q: "Exec [''svn'', ''status'', ''--xml''] (Some wc_root) (Inr (0, out)) \<in> set B"
    by (simp add: rm_failed run_events_def)
  from assms(2,3) rm_failed(2) have
    "Exec c d x \<in> set (delete_events wc_root (zip (take k (missing_paths root)) outs)) \<or>
     c = rm_cmd (missing_paths root ! k)"
    by (auto simp: run_events_def)
  then have "\<exists>p. p \<in> set (missing_paths root) \<and> c = rm_cmd p"
  proof
    assume "Exec c d x \<in> set (delete_events wc_root (zip (take k (missing_paths root)) outs))"
    from Exec_in_delete_events_path[OF this] show ?thesis
      by (auto dest!: set_zip_leftD in_set_takeD)
  next
    assume "c = rm_cmd (missing_paths root ! k)"
    with nth_mem[OF rm_failed(4)] show ?thesis by blast
  qed
  with q rm_failed(3) show ?thesis by blast
next
  case (add_failed out root outs res e)
  have q: "Exec [''svn'', ''status'', ''--xml''] (Some wc_root) (Inr (0, out)) \<in> set B"
    by (simp add: add_failed run_events_def)
  from assms(2,3) add_failed(2) have
    "Exec c d x \<in> set (delete_events wc_root (zip (missing_paths root) outs))"
    by (auto simp: run_events_def)
  from Exec_in_delete_events_path[OF this] have "\<exists>p. p \<in> set (missing_paths root) \<and> c = rm_cmd p"
    by (auto dest!: set_zip_leftD)
  with q add_failed(3) show ?thesis by blast
next
  case (reconciled out root outs out')
  have q: "Exec [''svn'', ''status'', ''--xml''] (Some wc_root) (Inr (0, out)) \<in> set B"
    by (simp add: reconciled run_events_def)
  from assms(2,3) reconciled(2) have
    "Exec c d x \<in> set (delete_events wc_root (zip (missing_paths root) outs))"
    by (auto simp: run_events_def)
  from Exec_in_delete_events_path[OF this] have "\<exists>p. p \<in> set (missing_paths root) \<and> c = rm_cmd p"
    by (auto dest!: set_zip_leftD)
  with q reconciled(3) show ?thesis by blast
qed

lemma rm_not_in_commit_trace:
  assumes "commit_trace h wc_root msg r C" and "subcommand ''rm'' c"
  shows "Exec c d x \<notin> set C"
proof
  assume "Exec c d x \<in> set C"
  from Exec_in_execs[OF this] have "c \<in> set (filter (subcommand ''rm'') (execs C))"
    using assms(2) by simp
  with filter_commit_trace[OF assms(1), of "''rm''"] show False by simp
qed

lemma rm_not_in_pre:
  assumes "list_all (pre_cmd h) (execs A)" and "subcommand ''rm'' c"
  shows "Exec c d x \<notin> set A"
  using not_in_pre[OF assms(1), of c d x] pre_cmd_subcommand[of h c "''rm''"] assms(2) by auto

lemma main_trace_rm:
  assumes "main_trace h r evs" and "Exec c d x \<in> set evs" and "subcommand ''rm'' c"
  shows "\<exists>d' out root p. Exec [''svn'', ''status'', ''--xml''] d' (Inr (0, out)) \<in> set evs \<and>
           fromstring h out = Some root \<and> p \<in> set (missing_paths root) \<and> c = rm_cmd p"
  using assms(1)
proof (cases rule: main_trace.cases)
  case (early e)
  with rm_not_in_pre[OF _ assms(3), of h evs d x] assms(2) show ?thesis by simp
next
  case (in_reconcile A wc_root e B)
  from rm_not_in_pre[OF in_reconcile(3) assms(3), of d x] assms(2) in_reconcile(2)
  have "Exec c d x \<in> set B" by simp
  from reconcile_trace_rm[OF in_reconcile(4) this assms(3)] in_reconcile(2)
  show ?thesis by auto
next
  case (decided A wc_root B msg C)
  from rm_not_in_pre[OF decided(2) assms(3), of d x] rm_not_in_commit_trace[OF decided(4) assms(3), of d x]
    assms(2) decided(1)
  have "Exec c d x \<in> set B" by simp
  from reconcile_trace_rm[OF decided(3) this assms(3)] decided(1)
  show ?thesis by auto
qed

section \<open>The portable mirror: what the two walks do\<close>

lemma lookup_append:
  "lookup root (p @ q) = (case lookup root p of None \<Rightarrow> None | Some n \<Rightarrow> lookup n q)"
  by (induction root p rule: lookup.induct) (auto split: option.splits)

lemma map_of_distinct: "distinct (map fst es) \<Longrightarrow> (n, c) \<in> set es \<Longrightarrow> map_of es n = Some c"
  by simp

lemma delete_eq_filter: "AList.delete k es = filter (\<lambda>e. fst e \<noteq> k) es"
  by (induction es) auto

lemma delete_dirs_filter:
  assumes "distinct (map fst es)"
  shows "delete_dirs src rel ds es =
     filter (\<lambda>e. \<not> (fst e \<in> set ds \<and> is_dir_node (snd e) \<and> \<not> path_exists src (rel @ [fst e]))) es"
  using assms
proof (induction ds arbitrary: es)
  case Nil
  then show ?case by simp
next
  case (Cons d ds)
  have rm: "rmtree_ignore_errors es d = filter (\<lambda>e. \<not> (fst e = d \<and> is_dir_node (snd e))) es"
  proof (cases "map_of es d")
    case None
    then have "\<forall>e \<in> set es. fst e \<noteq> d" by (auto simp: map_of_eq_None_iff)
    then show ?thesis using None by (simp add: rmtree_ignore_errors_def filter_id_conv)
  next
    case (Some n)
    then have in_es: "(d, n) \<in> set es" by (rule map_of_SomeD)
    have uniq: "\<And>e. e \<in> set es \<Longrightarrow> fst e = d \<Longrightarrow> snd e = n"
      using Cons.prems Some by (metis map_of_distinct option.inject prod.collapse)
    show ?thesis
    proof (cases n)
      case (File c)
      then have "\<forall>e \<in> set es. \<not> (fst e = d \<and> is_dir_node (snd e))" using uniq by auto
      then show ?thesis using Some File by (simp add: rmtree_ignore_errors_def filter_id_conv)
    next
      case (Dir sub)
      have "\<And>e. e \<in> set es \<Longrightarrow> fst e = d \<Longrightarrow> is_dir_node (snd e)"
        using uniq Dir by fastforce
      then have "\<And>e. e \<in> set es \<Longrightarrow> (fst e = d \<and> is_dir_node (snd e)) = (fst e = d)" by auto
      then have "filter (\<lambda>e. \<not> (fst e = d \<and> is_dir_node (snd e))) es = filter (\<lambda>e. fst e \<noteq> d) es"
        by (intro filter_cong) auto
      then show ?thesis using Some Dir by (simp add: rmtree_ignore_errors_def delete_eq_filter)
    qed
  qed
  have d1: "distinct (map fst (rmtree_ignore_errors es d))"
    unfolding rm using Cons.prems by (simp add: distinct_map_filter)
  show ?case
  proof (cases "path_exists src (rel @ [d])")
    case True
    then show ?thesis using Cons.IH[OF Cons.prems] by (auto intro: filter_cong)
  next
    case False
    then have "delete_dirs src rel (d # ds) es = delete_dirs src rel ds (rmtree_ignore_errors es d)" by simp
    also have "\<dots> = filter (\<lambda>e. \<not> (fst e \<in> set ds \<and> is_dir_node (snd e) \<and> \<not> path_exists src (rel @ [fst e])))
                      (filter (\<lambda>e. \<not> (fst e = d \<and> is_dir_node (snd e))) es)"
      using Cons.IH[OF d1] rm by simp
    also have "\<dots> = filter (\<lambda>e. \<not> (fst e \<in> set (d # ds) \<and> is_dir_node (snd e) \<and> \<not> path_exists src (rel @ [fst e]))) es"
      using False by (auto intro: filter_cong)
    finally show ?thesis .
  qed
qed

lemma delete_files_filter:
  assumes "distinct (map fst es)" and "distinct fs"
    and "\<forall>f \<in> set fs. \<exists>c. (f, File c) \<in> set es"
  shows "delete_files src rel fs es =
     Inr (filter (\<lambda>e. \<not> (fst e \<in> set fs \<and> \<not> path_exists src (rel @ [fst e]))) es)"
  using assms
proof (induction fs arbitrary: es)
  case Nil
  then show ?case by simp
next
  case (Cons f fs)
  show ?case
  proof (cases "path_exists src (rel @ [f])")
    case True
    have "delete_files src rel (f # fs) es = delete_files src rel fs es" using True by simp
    also have "\<dots> = Inr (filter (\<lambda>e. \<not> (fst e \<in> set fs \<and> \<not> path_exists src (rel @ [fst e]))) es)"
      using Cons.prems by (intro Cons.IH) auto
    also have "filter (\<lambda>e. \<not> (fst e \<in> set fs \<and> \<not> path_exists src (rel @ [fst e]))) es
       = filter (\<lambda>e. \<not> (fst e \<in> set (f # fs) \<and> \<not> path_exists src (rel @ [fst e]))) es"
      using True by (auto intro: filter_cong)
    finally show ?thesis .
  next
    case False
    from Cons.prems obtain c where c: "(f, File c) \<in> set es" by auto
    then have m: "map_of es f = Some (File c)" using Cons.prems(1) by simp
    let ?es' = "filter (\<lambda>e. fst e \<noteq> f) es"
    have rm: "os_remove es f = Inr ?es'" using m by (simp add: os_remove_def delete_eq_filter)
    have d': "distinct (map fst ?es')" using Cons.prems(1) by (simp add: distinct_map_filter)
    have f': "\<forall>g \<in> set fs. \<exists>c. (g, File c) \<in> set ?es'" using Cons.prems(2,3) by auto
    have "delete_files src rel (f # fs) es = delete_files src rel fs ?es'" using False rm by simp
    also have "\<dots> = Inr (filter (\<lambda>e. \<not> (fst e \<in> set fs \<and> \<not> path_exists src (rel @ [fst e]))) ?es')"
      using Cons.prems(2) by (intro Cons.IH[OF d' _ f']) simp
    also have "filter (\<lambda>e. \<not> (fst e \<in> set fs \<and> \<not> path_exists src (rel @ [fst e]))) ?es'
       = filter (\<lambda>e. \<not> (fst e \<in> set (f # fs) \<and> \<not> path_exists src (rel @ [fst e]))) es"
      using False by (auto intro: filter_cong)
    finally show ?thesis .
  qed
qed

lemma fst_mem_filter:
  assumes d: "distinct (map fst es)" and e: "e \<in> set es"
  shows "(fst e \<in> fst ` {x \<in> set es. Q (snd x)}) = Q (snd e)"
proof
  assume "fst e \<in> fst ` {x \<in> set es. Q (snd x)}"
  then obtain x where x: "x \<in> set es" "Q (snd x)" "fst x = fst e" by auto
  have "(fst e, snd x) \<in> set es" using x(1,3) by (metis prod.collapse)
  moreover have "(fst e, snd e) \<in> set es" using e by simp
  ultimately have "snd x = snd e" using eq_key_imp_eq_value[OF d] by blast
  with x(2) show "Q (snd e)" by simp
next
  assume "Q (snd e)"
  with e show "fst e \<in> fst ` {x \<in> set es. Q (snd x)}" by blast
qed

lemma scandir_names:
  assumes "distinct (map fst es)" and "e \<in> set es"
  shows "fst e \<in> set (fst (scandir es)) \<longleftrightarrow> is_dir_node (snd e)"
    and "fst e \<in> set (snd (scandir es)) \<longleftrightarrow> \<not> is_dir_node (snd e)"
  using fst_mem_filter[OF assms, of is_dir_node]
    fst_mem_filter[OF assms, of "\<lambda>n. \<not> is_dir_node n"]
  by (simp_all add: scandir_def)

lemma scandir_files:
  "f \<in> set (snd (scandir es)) \<Longrightarrow> \<exists>c. (f, File c) \<in> set es"
proof -
  assume "f \<in> set (snd (scandir es))"
  then obtain e where e: "e \<in> set es" "\<not> is_dir_node (snd e)" "fst e = f"
    by (auto simp: scandir_def)
  then obtain c where "snd e = File c" by (cases "snd e") auto
  with e(3) have "e = (f, File c)" by (cases e) simp
  with e(1) show ?thesis by blast
qed

lemma scandir_distinct:
  "distinct (map fst es) \<Longrightarrow> distinct (fst (scandir es)) \<and> distinct (snd (scandir es))"
  by (simp add: scandir_def distinct_map_filter)

lemma walk_dirs_mem:
  assumes "distinct (map fst es)" and "e \<in> set es"
  shows "fst e \<in> set (walk_dirs rel es) \<longleftrightarrow> is_dir_node (snd e) \<and> \<not> (rel = [] \<and> fst e = ''.svn'')"
  using scandir_names(1)[OF assms] by (auto simp: walk_dirs_def)

lemma delete_extras_fresh:
  assumes d: "distinct (map fst es)"
  shows "delete_extras src rel (walk_dirs rel es) (snd (scandir es)) es = Inr (filter (kept src rel) es)"
proof -
  let ?F = "\<lambda>e. \<not> (fst e \<in> set (snd (scandir es)) \<and> \<not> path_exists src (rel @ [fst e]))"
  let ?G = "\<lambda>e. \<not> (fst e \<in> set (walk_dirs rel es) \<and> is_dir_node (snd e) \<and> \<not> path_exists src (rel @ [fst e]))"
  have 1: "delete_files src rel (snd (scandir es)) es = Inr (filter ?F es)"
    using d scandir_distinct[OF d] scandir_files by (intro delete_files_filter) auto
  have 2: "delete_dirs src rel (walk_dirs rel es) (filter ?F es) = filter ?G (filter ?F es)"
    using d by (intro delete_dirs_filter) (simp add: distinct_map_filter)
  have "filter ?G (filter ?F es) = filter (kept src rel) es"
    unfolding filter_filter
  proof (rule filter_cong[OF refl])
    fix e assume e: "e \<in> set es"
    show "(?F e \<and> ?G e) = kept src rel e"
      using walk_dirs_mem[OF d e, of rel] scandir_names(2)[OF d e]
      by (auto simp: kept_def)
  qed
  with 1 2 show ?thesis by (simp add: delete_extras_def)
qed

lemma pruned_entries_eq:
  assumes "\<forall>e \<in> set es. (fst e \<in> set dirs) = (is_dir_node (snd e) \<and> \<not> (rel = [] \<and> fst e = ''.svn''))"
  shows "pruned_entries src rel es =
     map (\<lambda>e. (fst e, if fst e \<in> set dirs then pruned src (rel @ [fst e]) (snd e) else snd e))
       (filter (kept src rel) es)"
  using assms
proof (induction es)
  case Nil
  then show ?case by simp
next
  case (Cons e es)
  obtain n c where e: "e = (n, c)" by (cases e)
  from Cons have IH: "pruned_entries src rel es =
     map (\<lambda>e. (fst e, if fst e \<in> set dirs then pruned src (rel @ [fst e]) (snd e) else snd e))
       (filter (kept src rel) es)" by simp
  from Cons.prems e have m: "(n \<in> set dirs) = (is_dir_node c \<and> \<not> (rel = [] \<and> n = ''.svn''))" by simp
  have k: "kept src rel (n, c) = (path_exists src (rel @ [n]) \<or> (is_dir_node c \<and> rel = [] \<and> n = ''.svn''))"
    by (simp add: kept_def)
  show ?case
  proof (cases "rel = [] \<and> n = ''.svn'' \<and> is_dir_node c")
    case True
    then show ?thesis using m IH k unfolding e by simp
  next
    case False
    show ?thesis
    proof (cases "path_exists src (rel @ [n])")
      case True
      then show ?thesis using False m IH k unfolding e by (cases c) auto
    next
      case no: False
      then show ?thesis using False m IH k unfolding e by auto
    qed
  qed
qed

lemma walk_remove_pruned:
  "wf_node wc \<Longrightarrow> walk_remove src rel wc = Inr (pruned src rel wc)"
  "list_all (\<lambda>e. wf_node (snd e)) es \<Longrightarrow>
   walk_remove_subdirs src rel dirs es =
     Inr (map (\<lambda>e. (fst e, if fst e \<in> set dirs then pruned src (rel @ [fst e]) (snd e) else snd e)) es)"
proof (induction src rel wc and src rel dirs es rule: walk_remove_walk_remove_subdirs.induct)
  case (1 src rel c)
  then show ?case by simp
next
  case (2 src rel es)
  from "2.prems" have d: "distinct (map fst es)" and w: "list_all (\<lambda>e. wf_node (snd e)) es" by simp_all
  let ?dirs = "walk_dirs rel es"
  have ex: "delete_extras src rel ?dirs (snd (scandir es)) es = Inr (filter (kept src rel) es)"
    by (rule delete_extras_fresh[OF d])
  have w': "list_all (\<lambda>e. wf_node (snd e)) (filter (kept src rel) es)"
    using w by (simp add: list_all_iff)
  have sub: "walk_remove_subdirs src rel ?dirs (filter (kept src rel) es) =
     Inr (map (\<lambda>e. (fst e, if fst e \<in> set ?dirs then pruned src (rel @ [fst e]) (snd e) else snd e))
       (filter (kept src rel) es))"
    using "2.IH"[OF refl refl ex[unfolded walk_dirs_def] w'] by (simp add: walk_dirs_def)
  have "pruned_entries src rel es =
     map (\<lambda>e. (fst e, if fst e \<in> set ?dirs then pruned src (rel @ [fst e]) (snd e) else snd e))
       (filter (kept src rel) es)"
    by (rule pruned_entries_eq) (use walk_dirs_mem[OF d] in blast)
  with ex sub show ?case
    by (simp add: walk_dirs_def Let_def)
next
  case (3 src rel dirs)
  then show ?case by simp
next
  case (4 src rel dirs d n es)
  from "4.prems" have wn: "wf_node n" and wes: "list_all (\<lambda>e. wf_node (snd e)) es" by simp_all
  have first: "(if d \<in> set dirs then walk_remove src (rel @ [d]) n else Inr n) =
      Inr (if d \<in> set dirs then pruned src (rel @ [d]) n else n)"
    using "4.IH"(1)[OF _ wn] by simp
  have rest: "walk_remove_subdirs src rel dirs es =
     Inr (map (\<lambda>e. (fst e, if fst e \<in> set dirs then pruned src (rel @ [fst e]) (snd e) else snd e)) es)"
    by (rule "4.IH"(2)[OF first wes])
  show ?case using first rest by simp
qed

lemma stat_Nil [simp]: "stat (Dir es) [] = IsDir" "stat (File c) [] = IsFile c"
  by (simp_all add: stat_def)

lemma stat_File_Cons [simp]: "stat (File c) (x # p) = Missing"
  by (simp add: stat_def)

lemma stat_Dir_Cons:
  "stat (Dir es) (x # p) = (case map_of es x of None \<Rightarrow> Missing | Some n \<Rightarrow> stat n p)"
  by (simp add: stat_def split: option.splits)

lemma path_exists_stat: "path_exists root p \<longleftrightarrow> stat root p \<noteq> Missing"
  by (simp add: path_exists_def stat_def split: option.splits node.splits)

lemma isdir_stat: "isdir root p \<longleftrightarrow> stat root p = IsDir"
  by (simp add: isdir_def stat_def split: option.splits node.splits)

lemma lookup_File_stat: "lookup root p = Some (File c) \<longleftrightarrow> stat root p = IsFile c"
  by (simp add: stat_def split: option.splits node.splits)

lemma stat_append:
  "stat root (p @ q) = (case lookup root p of None \<Rightarrow> Missing | Some n \<Rightarrow> stat n q)"
  by (simp add: stat_def lookup_append split: option.splits)

lemma stat_prefix_dir:
  "stat root (p @ q) \<noteq> Missing \<Longrightarrow> q \<noteq> [] \<Longrightarrow> stat root p = IsDir"
proof (induction root p rule: lookup.induct)
  case (1 n)
  then show ?case by (cases n; cases q) auto
next
  case (2 c x p)
  then show ?case by simp
next
  case (3 es x p)
  then show ?case by (auto simp: stat_Dir_Cons split: option.splits)
qed

lemma pruned_entries_keys:
  "x \<in> fst ` set (pruned_entries src rel es) \<Longrightarrow> x \<in> fst ` set es"
proof (induction es)
  case Nil
  then show ?case by simp
next
  case (Cons e es)
  obtain n c where e: "e = (n, c)" by (cases e)
  from Cons.prems have "x = n \<or> x \<in> fst ` set (pruned_entries src rel es)"
    unfolding e by (auto split: if_splits)
  with Cons.IH show ?case unfolding e by auto
qed

lemma pruned_entries_distinct:
  "distinct (map fst es) \<Longrightarrow> distinct (map fst (pruned_entries src rel es))"
proof (induction es)
  case Nil
  then show ?case by simp
next
  case (Cons e es)
  obtain n c where e: "e = (n, c)" by (cases e)
  have "n \<notin> fst ` set (pruned_entries src rel es)"
    using Cons.prems pruned_entries_keys[of n src rel es] unfolding e by auto
  moreover have "distinct (map fst (pruned_entries src rel es))"
    using Cons unfolding e by simp
  ultimately show ?case unfolding e by auto
qed

lemma wf_pruned:
  "wf_node wc \<Longrightarrow> wf_node (pruned src rel wc)"
  "list_all (\<lambda>e. wf_node (snd e)) es \<Longrightarrow> list_all (\<lambda>e. wf_node (snd e)) (pruned_entries src rel es)"
proof (induction src rel wc and src rel es rule: pruned_pruned_entries.induct)
  case (1 src rel c)
  then show ?case by simp
next
  case (2 src rel es)
  then show ?case by (simp add: pruned_entries_distinct)
next
  case (3 src rel)
  then show ?case by simp
next
  case (4 src rel n c es)
  then show ?case by auto
qed

lemma map_of_pruned_entries:
  assumes "distinct (map fst es)"
  shows "map_of (pruned_entries src rel es) x =
     (case map_of es x of
        None \<Rightarrow> None
      | Some c \<Rightarrow>
          if rel = [] \<and> x = ''.svn'' \<and> is_dir_node c then Some c
          else if path_exists src (rel @ [x]) then Some (pruned src (rel @ [x]) c)
          else None)"
  using assms
proof (induction es)
  case Nil
  then show ?case by simp
next
  case (Cons e es)
  obtain n c where e: "e = (n, c)" by (cases e)
  from Cons.prems e have nin: "map_of es n = None" and d: "distinct (map fst es)"
    by (auto simp: map_of_eq_None_iff)
  note IH = Cons.IH[OF d]
  show ?case
  proof (cases "x = n")
    case True
    have "map_of (pruned_entries src rel es) n = None"
      using IH nin True by simp
    then show ?thesis using True unfolding e by simp
  next
    case False
    have "map_of (pruned_entries src rel ((n, c) # es)) x = map_of (pruned_entries src rel es) x"
      using False by simp
    moreover have "map_of ((n, c) # es) x = map_of es x" using False by simp
    ultimately show ?thesis using IH unfolding e by (simp only:)
  qed
qed

lemma stat_pruned_sub:
  "wf_node wc \<Longrightarrow> stat (pruned src rel wc) p \<noteq> Missing \<Longrightarrow> stat (pruned src rel wc) p = stat wc p"
proof (induction p arbitrary: wc rel)
  case Nil
  then show ?case by (cases wc) auto
next
  case (Cons x p)
  show ?case
  proof (cases wc)
    case (File c)
    then show ?thesis by simp
  next
    case (Dir es)
    with Cons.prems have d: "distinct (map fst es)" and w: "list_all (\<lambda>e. wf_node (snd e)) es" by simp_all
    show ?thesis
    proof (cases "map_of es x")
      case None
      then show ?thesis using Dir by (simp add: stat_Dir_Cons map_of_pruned_entries[OF d])
    next
      case (Some c)
      then have "(x, c) \<in> set es" by (rule map_of_SomeD)
      with w have wc: "wf_node c" by (auto simp: list_all_iff)
      show ?thesis
        using Cons.prems(2) Cons.IH[OF wc, of "rel @ [x]"] Some Dir
        by (auto simp: stat_Dir_Cons map_of_pruned_entries[OF d] split: if_splits)
    qed
  qed
qed

lemma stat_pruned_exists:
  "wf_node wc \<Longrightarrow> stat (pruned src rel wc) (x # p) \<noteq> Missing \<Longrightarrow>
   \<not> (rel = [] \<and> x = ''.svn'') \<Longrightarrow> path_exists src (rel @ x # p)"
proof (induction p arbitrary: wc rel x)
  case Nil
  show ?case
  proof (cases wc)
    case (File c)
    with Nil show ?thesis by simp
  next
    case (Dir es)
    with Nil have d: "distinct (map fst es)" by simp
    from Nil(2,3) show ?thesis unfolding Dir
      by (auto simp: stat_Dir_Cons map_of_pruned_entries[OF d] split: option.splits if_splits)
  qed
next
  case (Cons y p)
  show ?case
  proof (cases wc)
    case (File c)
    with Cons.prems show ?thesis by simp
  next
    case (Dir es)
    with Cons.prems have d: "distinct (map fst es)" and w: "list_all (\<lambda>e. wf_node (snd e)) es"
      by simp_all
    from Cons.prems(2,3) obtain c where c: "map_of es x = Some c"
      and st: "stat (pruned src (rel @ [x]) c) (y # p) \<noteq> Missing"
      unfolding Dir
      by (auto simp: stat_Dir_Cons map_of_pruned_entries[OF d] split: option.splits if_splits)
    from c have "(x, c) \<in> set es" by (rule map_of_SomeD)
    with w have "wf_node c" by (auto simp: list_all_iff)
    from Cons.IH[OF this st] show ?thesis by simp
  qed
qed

lemma stat_mkchain: "stat (mkchain q) p = (if prefix p q then IsDir else Missing)"
proof (induction q arbitrary: p)
  case Nil
  then show ?case by (cases p) (auto simp: stat_Dir_Cons)
next
  case (Cons x q)
  then show ?case by (cases p) (auto simp: stat_Dir_Cons)
qed

lemma stat_makedirs:
  "makedirs wc q = Inr wc' \<Longrightarrow> stat wc' p = (if prefix p q then IsDir else stat wc p)"
proof (induction wc q arbitrary: wc' p rule: makedirs.induct)
  case (1 es)
  then show ?case by (cases p) auto
next
  case (2 c)
  then show ?case by simp
next
  case (3 c x q)
  then show ?case by simp
next
  case (4 es x q)
  show ?case
  proof (cases "map_of es x")
    case None
    with "4.prems" have wc': "wc' = Dir (es @ [(x, mkchain q)])" by simp
    show ?thesis
    proof (cases p)
      case Nil
      then show ?thesis by (simp add: wc')
    next
      case (Cons y p')
      then show ?thesis using None
        by (auto simp: wc' stat_Dir_Cons stat_mkchain map_add_def split: option.splits)
    qed
  next
    case (Some n)
    with "4.prems" obtain n' where n': "makedirs n q = Inr n'" and wc': "wc' = Dir (AList.update x n' es)"
      by (auto split: sum.splits)
    show ?thesis
    proof (cases p)
      case Nil
      then show ?thesis by (simp add: wc')
    next
      case (Cons y p')
      then show ?thesis using Some "4.IH"[OF Some n', of p']
        by (auto simp: wc' stat_Dir_Cons update_conv' split: option.splits)
    qed
  qed
qed

lemma stat_write_file:
  "write_file wc q c = Inr wc' \<Longrightarrow> stat wc' p = (if p = q then IsFile c else stat wc p)"
proof (induction wc q c arbitrary: wc' p rule: write_file.induct)
  case (1 es c)
  then show ?case by simp
next
  case (2 c' c)
  then show ?case by (cases p) auto
next
  case (3 c' x q c)
  then show ?case by simp
next
  case (4 es x q c)
  show ?case
  proof (cases "map_of es x")
    case None
    with "4.prems" have q: "q = []" and wc': "wc' = Dir (es @ [(x, File c)])"
      by (auto split: if_splits)
    show ?thesis
    proof (cases p)
      case Nil
      then show ?thesis by (simp add: wc')
    next
      case (Cons y p')
      then show ?thesis using None q
        by (cases p') (auto simp: wc' stat_Dir_Cons map_add_def split: option.splits)
    qed
  next
    case (Some n)
    with "4.prems" obtain n' where n': "write_file n q c = Inr n'" and wc': "wc' = Dir (AList.update x n' es)"
      by (auto split: sum.splits)
    show ?thesis
    proof (cases p)
      case Nil
      then show ?thesis by (simp add: wc')
    next
      case (Cons y p')
      then show ?thesis using Some "4.IH"[OF Some n', of p']
        by (auto simp: wc' stat_Dir_Cons update_conv' split: option.splits)
    qed
  qed
qed

lemma wf_mkchain: "wf_node (mkchain q)"
  by (induction q) auto

lemma wf_update:
  assumes "wf_node (Dir es)" and "wf_node n"
  shows "wf_node (Dir (AList.update x n es))"
proof -
  have "list_all (\<lambda>e. wf_node (snd e)) (AList.update x n es)"
    using assms by (induction es) (auto split: if_splits)
  then show ?thesis using assms(1) by (simp add: distinct_update)
qed

lemma wf_append:
  assumes "wf_node (Dir es)" and "wf_node n" and "map_of es x = None"
  shows "wf_node (Dir (es @ [(x, n)]))"
  using assms by (auto simp: map_of_eq_None_iff)

lemma wf_child: "wf_node (Dir es) \<Longrightarrow> map_of es x = Some n \<Longrightarrow> wf_node n"
  by (auto simp: list_all_iff dest: map_of_SomeD)

lemma wf_makedirs: "wf_node wc \<Longrightarrow> makedirs wc q = Inr wc' \<Longrightarrow> wf_node wc'"
proof (induction wc q arbitrary: wc' rule: makedirs.induct)
  case (4 es x q)
  show ?case
  proof (cases "map_of es x")
    case None
    with "4.prems" have wc': "wc' = Dir (es @ [(x, mkchain q)])" by simp
    show ?thesis unfolding wc' by (rule wf_append[OF "4.prems"(1) wf_mkchain None])
  next
    case (Some n)
    with "4.prems" obtain n' where n': "makedirs n q = Inr n'" and wc': "wc' = Dir (AList.update x n' es)"
      by (auto split: sum.splits)
    from "4.IH"[OF Some wf_child[OF "4.prems"(1) Some] n'] have "wf_node n'" .
    from wf_update[OF "4.prems"(1) this] show ?thesis by (simp add: wc')
  qed
qed auto

lemma wf_write_file: "wf_node wc \<Longrightarrow> write_file wc q c = Inr wc' \<Longrightarrow> wf_node wc'"
proof (induction wc q c arbitrary: wc' rule: write_file.induct)
  case (4 es x q c)
  show ?case
  proof (cases "map_of es x")
    case None
    with "4.prems" have "wc' = Dir (es @ [(x, File c)])" by (auto split: if_splits)
    with wf_append[OF "4.prems"(1) _ None, of "File c"] show ?thesis by simp
  next
    case (Some n)
    with "4.prems" obtain n' where n': "write_file n q c = Inr n'" and wc': "wc' = Dir (AList.update x n' es)"
      by (auto split: sum.splits)
    from "4.IH"[OF Some wf_child[OF "4.prems"(1) Some] n'] have "wf_node n'" .
    from wf_update[OF "4.prems"(1) this] show ?thesis by (simp add: wc')
  qed
qed auto

lemma makedirs_same: "stat wc q = IsDir \<Longrightarrow> makedirs wc q = Inr wc"
proof (induction wc q rule: makedirs.induct)
  case (4 es x q)
  then obtain n where n: "map_of es x = Some n" and st: "stat n q = IsDir"
    by (auto simp: stat_Dir_Cons split: option.splits)
  from "4.IH"[OF n st] n show ?case by (simp add: update_triv)
qed auto

lemma write_file_same: "stat wc q = IsFile c \<Longrightarrow> write_file wc q c = Inr wc"
proof (induction wc q c rule: write_file.induct)
  case (4 es x q c)
  then obtain n where n: "map_of es x = Some n" and st: "stat n q = IsFile c"
    by (auto simp: stat_Dir_Cons split: option.splits)
  from "4.IH"[OF n st] n show ?case by (simp add: update_triv)
qed auto

lemma covered_Nil [simp]: "\<not> covered [] p"
  by (simp add: covered_def)

lemma covered_Cons:
  "covered ((rel, ds, fs) # ys) p \<longleftrightarrow>
     prefix p rel \<or> (\<exists>f \<in> set fs. p = rel @ [f]) \<or> covered ys p"
  by (auto simp: covered_def)

lemma stat_prefix:
  assumes "stat root rel = IsDir" and "prefix p rel"
  shows "stat root p = IsDir"
proof -
  from assms(2) obtain r where r: "rel = p @ r" by (auto simp: prefix_def)
  show ?thesis
  proof (cases "r = []")
    case True
    with r assms(1) show ?thesis by simp
  next
    case False
    with stat_prefix_dir[of root p r] assms(1) r show ?thesis by simp
  qed
qed

lemma copy_files_stat:
  assumes "copy_files src rel fs wc = Inr wc'"
    and "\<forall>f \<in> set fs. \<exists>c. stat src (rel @ [f]) = IsFile c"
    and "noconf src wc"
  shows "(\<forall>p. stat wc' p = (if \<exists>f \<in> set fs. p = rel @ [f] then stat src p else stat wc p)) \<and>
         noconf src wc'"
  using assms
proof (induction fs arbitrary: wc)
  case Nil
  then show ?case by simp
next
  case (Cons f fs)
  from Cons.prems(2) obtain c where c: "stat src (rel @ [f]) = IsFile c" by auto
  then have lk: "lookup src (rel @ [f]) = Some (File c)" by (simp add: lookup_File_stat)
  from Cons.prems(3) c have nd: "\<not> isdir wc (rel @ [f])" by (auto simp: noconf_def isdir_stat)
  from Cons.prems(1) lk nd obtain w1 where
    w1: "write_file wc (rel @ [f]) c = Inr w1" and rest: "copy_files src rel fs w1 = Inr wc'"
    by (auto simp: copy2_def split: sum.splits)
  have s1: "\<And>p. stat w1 p = (if p = rel @ [f] then IsFile c else stat wc p)"
    by (rule stat_write_file[OF w1])
  have n1: "noconf src w1"
    using Cons.prems(3) s1 by (auto simp: noconf_def)
  from Cons.IH[OF rest _ n1] Cons.prems(2) have
    IH: "\<And>p. stat wc' p = (if \<exists>f \<in> set fs. p = rel @ [f] then stat src p else stat w1 p)"
    and n': "noconf src wc'" by auto
  show ?case using IH s1 c n' by auto
qed

lemma copy_loop_stat:
  assumes "copy_loop src ys wc = Inr wc'" and "yields_ok src ys" and "noconf src wc"
  shows "(\<forall>p. stat wc' p = (if covered ys p then stat src p else stat wc p)) \<and> noconf src wc'"
  using assms
proof (induction ys arbitrary: wc)
  case Nil
  then show ?case by simp
next
  case (Cons y ys)
  obtain rel ds fs where y: "y = (rel, ds, fs)" by (cases y)
  from Cons.prems(2) have ok: "stat src rel = IsDir" "\<forall>f \<in> set fs. \<exists>c. stat src (rel @ [f]) = IsFile c"
    and oks: "yields_ok src ys"
    by (auto simp: yields_ok_def y)
  from Cons.prems(1) obtain w1 w2 where
    w1: "makedirs wc rel = Inr w1" and w2: "copy_files src rel fs w1 = Inr w2"
    and rest: "copy_loop src ys w2 = Inr wc'"
    by (auto simp: y split: sum.splits)
  have s1: "\<And>p. stat w1 p = (if prefix p rel then stat src p else stat wc p)"
    using stat_makedirs[OF w1] stat_prefix[OF ok(1)] by simp
  have n1: "noconf src w1"
    using Cons.prems(3) stat_makedirs[OF w1] stat_prefix[OF ok(1)]
    unfolding noconf_def by (metis stat.distinct(5))
  from copy_files_stat[OF w2 ok(2) n1] have
    s2: "\<And>p. stat w2 p = (if \<exists>f \<in> set fs. p = rel @ [f] then stat src p else stat w1 p)"
    and n2: "noconf src w2" by auto
  from Cons.IH[OF rest oks n2] have
    s3: "\<And>p. stat wc' p = (if covered ys p then stat src p else stat w2 p)"
    and n3: "noconf src wc'" by auto
  show ?case using s1 s2 s3 n3 unfolding y covered_Cons by auto
qed

lemma wf_copy_files:
  "wf_node wc \<Longrightarrow> copy_files src rel fs wc = Inr wc' \<Longrightarrow> wf_node wc'"
proof (induction fs arbitrary: wc)
  case Nil
  then show ?case by simp
next
  case (Cons f fs)
  from Cons.prems(2) obtain c w1 where
    "copy2 c f wc (rel @ [f]) = Inr w1" and rest: "copy_files src rel fs w1 = Inr wc'"
    by (auto split: option.splits node.splits sum.splits)
  then have "wf_node w1" using wf_write_file[OF Cons.prems(1)]
    by (auto simp: copy2_def split: if_splits)
  from Cons.IH[OF this rest] show ?case .
qed

lemma wf_copy_loop:
  "wf_node wc \<Longrightarrow> copy_loop src ys wc = Inr wc' \<Longrightarrow> wf_node wc'"
proof (induction ys arbitrary: wc)
  case Nil
  then show ?case by simp
next
  case (Cons y ys)
  obtain rel ds fs where y: "y = (rel, ds, fs)" by (cases y)
  from Cons.prems(2) obtain w1 w2 where
    w1: "makedirs wc rel = Inr w1" and w2: "copy_files src rel fs w1 = Inr w2"
    and rest: "copy_loop src ys w2 = Inr wc'"
    by (auto simp: y split: sum.splits)
  from Cons.IH[OF wf_copy_files[OF wf_makedirs[OF Cons.prems(1) w1] w2] rest] show ?case .
qed

lemma copy_files_same:
  assumes "\<forall>f \<in> set fs. \<exists>c. stat src (rel @ [f]) = IsFile c \<and> stat wc (rel @ [f]) = IsFile c"
  shows "copy_files src rel fs wc = Inr wc"
  using assms
proof (induction fs)
  case Nil
  then show ?case by simp
next
  case (Cons f fs)
  then obtain c where c: "stat src (rel @ [f]) = IsFile c" "stat wc (rel @ [f]) = IsFile c" by auto
  then have "lookup src (rel @ [f]) = Some (File c)" "\<not> isdir wc (rel @ [f])"
    by (simp_all add: lookup_File_stat isdir_stat)
  moreover have "write_file wc (rel @ [f]) c = Inr wc" by (rule write_file_same[OF c(2)])
  ultimately show ?case using Cons by (simp add: copy2_def)
qed

lemma copy_loop_same:
  assumes "yields_ok src ys" and "\<forall>p. covered ys p \<longrightarrow> stat wc p = stat src p"
  shows "copy_loop src ys wc = Inr wc"
  using assms
proof (induction ys)
  case Nil
  then show ?case by simp
next
  case (Cons y ys)
  obtain rel ds fs where y: "y = (rel, ds, fs)" by (cases y)
  from Cons.prems(1) have ok: "stat src rel = IsDir" "\<forall>f \<in> set fs. \<exists>c. stat src (rel @ [f]) = IsFile c"
    and oks: "yields_ok src ys"
    by (auto simp: yields_ok_def y)
  have "stat wc rel = IsDir" using Cons.prems(2) ok(1) unfolding y covered_Cons by auto
  then have 1: "makedirs wc rel = Inr wc" by (rule makedirs_same)
  have "\<forall>f \<in> set fs. \<exists>c. stat src (rel @ [f]) = IsFile c \<and> stat wc (rel @ [f]) = IsFile c"
    using Cons.prems(2) ok(2) unfolding y covered_Cons by fastforce
  then have 2: "copy_files src rel fs wc = Inr wc" by (rule copy_files_same)
  have 3: "copy_loop src ys wc = Inr wc"
    using Cons.IH[OF oks] Cons.prems(2) unfolding y covered_Cons by auto
  show ?case using 1 2 3 by (simp add: y)
qed

lemma os_walk_sound:
  "wf_node sub \<Longrightarrow> y \<in> set (os_walk sub rel0) \<Longrightarrow>
   \<exists>q es. fst y = rel0 @ q \<and> lookup sub q = Some (Dir es) \<and> snd y = scandir es"
proof (induction sub rel0 arbitrary: y rule: os_walk.induct)
  case (1 c rel)
  then show ?case by simp
next
  case (2 es rel)
  from "2.prems"(2) consider (here) "y = (rel, scandir es)"
    | (below) d n where "(d, n) \<in> set es" "is_dir_node n" "y \<in> set (os_walk n (rel @ [d]))"
    by auto
  then show ?case
  proof cases
    case here
    then show ?thesis by (intro exI[of _ "[]"] exI[of _ es]) simp
  next
    case below
    from "2.prems"(1) below(1) have wn: "wf_node n" and m: "map_of es d = Some n"
      by (auto simp: list_all_iff)
    from "2.IH"[OF _ _ wn below(3)] below(1,2) obtain q es' where
      q: "fst y = (rel @ [d]) @ q" "lookup n q = Some (Dir es')" "snd y = scandir es'"
      by fastforce
    then show ?thesis using m by (intro exI[of _ "d # q"] exI[of _ es']) simp
  qed
qed

lemma os_walk_complete:
  "wf_node sub \<Longrightarrow> lookup sub q = Some (Dir es) \<Longrightarrow> (rel0 @ q, scandir es) \<in> set (os_walk sub rel0)"
proof (induction q arbitrary: sub rel0)
  case Nil
  then show ?case by simp
next
  case (Cons d q)
  from Cons.prems(2) obtain es0 n where sub: "sub = Dir es0" and m: "map_of es0 d = Some n"
    and l: "lookup n q = Some (Dir es)"
    by (cases sub) (auto split: option.splits)
  from m have mem: "(d, n) \<in> set es0" by (rule map_of_SomeD)
  with Cons.prems(1) sub have wn: "wf_node n" by (auto simp: list_all_iff)
  from l have dn: "is_dir_node n" by (cases n; cases q) auto
  from Cons.IH[OF wn l, of "rel0 @ [d]"] have "(rel0 @ d # q, scandir es) \<in> set (os_walk n (rel0 @ [d]))"
    by simp
  with mem dn show ?case unfolding sub by force
qed

lemma scandir_file_stat:
  assumes "wf_node (Dir es)" and "f \<in> set (snd (scandir es))"
  shows "\<exists>c. map_of es f = Some (File c)"
proof -
  from scandir_files[OF assms(2)] obtain c where "(f, File c) \<in> set es" by blast
  with assms(1) show ?thesis by auto
qed

lemma os_walk_yields_ok:
  assumes "wf_node src"
  shows "yields_ok src (os_walk src [])"
  unfolding yields_ok_def
proof (intro ballI conjI)
  fix y assume y: "y \<in> set (os_walk src [])"
  from os_walk_sound[OF assms y] obtain es where
    es: "lookup src (fst y) = Some (Dir es)" "snd y = scandir es" by auto
  then show "stat src (fst y) = IsDir" by (simp add: stat_def)
  have wes: "wf_node (Dir es)" using assms es(1)
  proof (induction src "fst y" arbitrary: y rule: lookup.induct)
    case (1 n)
    then show ?case by simp
  next
    case (2 c x p)
    then show ?case by (metis lookup.simps(2) option.distinct(1))
  next
    case (3 es0 x p)
    from "3.hyps"(2)[symmetric] "3.prems"(2) obtain n where
      n: "map_of es0 x = Some n" "lookup n p = Some (Dir es)"
      by (auto split: option.splits)
    from wf_child[OF "3.prems"(1) n(1)] have "wf_node n" .
    from "3.hyps"(1)[OF n(1), of "(p, snd y)"] this n(2) show ?case by simp
  qed
  fix f assume "f \<in> set (snd (snd y))"
  then obtain c where "map_of es f = Some (File c)"
    using scandir_file_stat[OF wes] es(2) by auto
  then show "\<exists>c. stat src (fst y @ [f]) = IsFile c"
    using es(1) by (simp add: stat_append stat_Dir_Cons)
qed

lemma stat_single_file:
  assumes "stat n [f] = IsFile c"
  shows "\<exists>es. n = Dir es \<and> map_of es f = Some (File c)"
proof (cases n)
  case (File c')
  with assms show ?thesis by simp
next
  case (Dir es)
  with assms have "map_of es f = Some (File c)"
    by (auto simp: stat_Dir_Cons stat_def split: option.splits node.splits)
  with Dir show ?thesis by simp
qed

lemma covered_os_walk:
  assumes w: "wf_node src" and d: "is_dir_node src"
  shows "covered (os_walk src []) p \<longleftrightarrow> stat src p \<noteq> Missing"
proof
  assume "covered (os_walk src []) p"
  then obtain y where y: "y \<in> set (os_walk src [])"
    and c: "prefix p (fst y) \<or> (\<exists>f \<in> set (snd (snd y)). p = fst y @ [f])"
    by (auto simp: covered_def)
  from os_walk_yields_ok[OF w] y have ok: "stat src (fst y) = IsDir"
    "\<forall>f \<in> set (snd (snd y)). \<exists>c. stat src (fst y @ [f]) = IsFile c"
    by (auto simp: yields_ok_def)
  from c show "stat src p \<noteq> Missing"
  proof
    assume "prefix p (fst y)"
    from stat_prefix[OF ok(1) this] show ?thesis by simp
  next
    assume "\<exists>f \<in> set (snd (snd y)). p = fst y @ [f]"
    with ok(2) show ?thesis by auto
  qed
next
  assume ex: "stat src p \<noteq> Missing"
  show "covered (os_walk src []) p"
  proof (cases "stat src p")
    case Missing
    with ex show ?thesis by simp
  next
    case IsDir
    then obtain es where "lookup src p = Some (Dir es)"
      by (auto simp: stat_def split: option.splits node.splits)
    from os_walk_complete[OF w this, of "[]"] show ?thesis
      by (auto simp: covered_def intro!: bexI[of _ "(p, scandir es)"])
  next
    case (IsFile c)
    with d have "p \<noteq> []" by (cases src) auto
    then obtain q f where p: "p = q @ [f]" by (cases p rule: rev_cases) auto
    from IsFile obtain n where n: "lookup src q = Some n" and sn: "stat n [f] = IsFile c"
      unfolding p by (auto simp: stat_append split: option.splits)
    from stat_single_file[OF sn] n obtain es where
      es: "lookup src q = Some (Dir es)" and m: "map_of es f = Some (File c)"
      by auto
    from m have "(f, File c) \<in> set es" by (rule map_of_SomeD)
    then have "f \<in> set (snd (scandir es))" by (force simp: scandir_def)
    with os_walk_complete[OF w es, of "[]"] show ?thesis
      unfolding p by (auto simp: covered_def intro!: bexI[of _ "(q, scandir es)"])
  qed
qed

lemma file_over_dir_stat:
  "stat src p = IsFile c \<Longrightarrow> stat wc p = IsDir \<Longrightarrow> file_over_dir src wc"
proof (induction p arbitrary: src wc)
  case Nil
  then show ?case by (cases src; cases wc) auto
next
  case (Cons x p)
  from Cons.prems(1) obtain es n where src: "src = Dir es" and n: "map_of es x = Some n"
    and sn: "stat n p = IsFile c"
    by (cases src) (auto simp: stat_Dir_Cons split: option.splits)
  from Cons.prems(2) obtain es' n' where wc: "wc = Dir es'" and n': "map_of es' x = Some n'"
    and sn': "stat n' p = IsDir"
    by (cases wc) (auto simp: stat_Dir_Cons split: option.splits)
  from Cons.IH[OF sn sn'] have "file_over_dir n n'" .
  moreover from n have "(x, n) \<in> set es" by (rule map_of_SomeD)
  ultimately show ?case unfolding src wc using n'
    by (auto simp: list_ex_iff intro!: bexI[of _ "(x, n)"])
qed

lemma noconf_file_over_dir: "\<not> file_over_dir src wc \<Longrightarrow> noconf src wc"
  unfolding noconf_def using file_over_dir_stat by blast

lemma settled_pruned:
  assumes "wf_node wc"
  shows "settled src rel (pruned src rel wc)"
  unfolding settled_def
proof (intro allI impI)
  fix x p
  assume st: "stat (pruned src rel wc) (x # p) \<noteq> Missing"
  show "path_exists src (rel @ x # p) \<or>
        (rel = [] \<and> x = ''.svn'' \<and> stat (pruned src rel wc) [x] = IsDir)"
  proof (cases "rel = [] \<and> x = ''.svn''")
    case False
    from stat_pruned_exists[OF assms st False] show ?thesis by simp
  next
    case True
    show ?thesis
    proof (cases wc)
      case (File c)
      with st show ?thesis by simp
    next
      case (Dir es)
      with assms have d: "distinct (map fst es)" by simp
      from st obtain c where c: "map_of es x = Some c" unfolding Dir
        by (auto simp: stat_Dir_Cons map_of_pruned_entries[OF d] split: option.splits)
      show ?thesis
      proof (cases "is_dir_node c")
        case dir: True
        then have "stat (pruned src rel wc) [x] = IsDir"
          using True c unfolding Dir
          by (cases c) (auto simp: stat_Dir_Cons map_of_pruned_entries[OF d])
        with True show ?thesis by simp
      next
        case nodir: False
        then obtain cc where cc: "c = File cc" by (cases c) auto
        from st c nodir have "p = []" and "path_exists src (rel @ [x])"
          unfolding Dir cc
          by (cases p; auto simp: stat_Dir_Cons map_of_pruned_entries[OF d] split: if_splits)+
        then show ?thesis by simp
      qed
    qed
  qed
qed

lemma settled_entries:
  assumes d: "distinct (map fst es)" and s: "settled src rel (Dir es)" and e: "e \<in> set es"
  shows "entry_settled src rel e"
proof -
  obtain n c where nc: "e = (n, c)" by (cases e)
  from d e nc have m: "map_of es n = Some c" by simp
  have top: "stat (Dir es) [n] \<noteq> Missing" using m by (cases c) (auto simp: stat_Dir_Cons)
  have dir: "stat (Dir es) [n] = IsDir \<longleftrightarrow> is_dir_node c" using m by (cases c) (auto simp: stat_Dir_Cons)
  show ?thesis
  proof (cases "rel = [] \<and> n = ''.svn'' \<and> is_dir_node c")
    case True
    then show ?thesis by (simp add: entry_settled_def nc)
  next
    case False
    from s top have ex: "path_exists src (rel @ [n])"
      using False dir unfolding settled_def by blast
    have "settled src (rel @ [n]) c"
      unfolding settled_def
    proof (intro allI impI)
      fix x p assume "stat c (x # p) \<noteq> Missing"
      then have "stat (Dir es) (n # x # p) \<noteq> Missing" using m by (simp add: stat_Dir_Cons)
      with s have "path_exists src (rel @ n # x # p) \<or> (rel = [] \<and> n = ''.svn'' \<and> stat (Dir es) [n] = IsDir)"
        unfolding settled_def by blast
      with False dir show "path_exists src ((rel @ [n]) @ x # p) \<or>
          (rel @ [n] = [] \<and> x = ''.svn'' \<and> stat c [x] = IsDir)"
        by auto
    qed
    with ex show ?thesis by (simp add: entry_settled_def nc)
  qed
qed

lemma pruned_same:
  "wf_node n \<Longrightarrow> settled src rel n \<Longrightarrow> pruned src rel n = n"
  "list_all (\<lambda>e. wf_node (snd e)) es \<Longrightarrow> \<forall>e \<in> set es. entry_settled src rel e \<Longrightarrow>
     pruned_entries src rel es = es"
proof (induction src rel n and src rel es rule: pruned_pruned_entries.induct)
  case (1 src rel c)
  then show ?case by simp
next
  case (2 src rel es)
  from "2.prems"(1) have d: "distinct (map fst es)" and w: "list_all (\<lambda>e. wf_node (snd e)) es"
    by simp_all
  have "\<forall>e \<in> set es. entry_settled src rel e"
    using settled_entries[OF d "2.prems"(2)] by blast
  from "2.IH"[OF w this] show ?case by simp
next
  case (3 src rel)
  then show ?case by simp
next
  case (4 src rel n c es)
  from "4.prems" have wc: "wf_node c" and wes: "list_all (\<lambda>e. wf_node (snd e)) es"
    and se: "entry_settled src rel (n, c)" and ses: "\<forall>e \<in> set es. entry_settled src rel e"
    by simp_all
  show ?case
  proof (cases "rel = [] \<and> n = ''.svn'' \<and> is_dir_node c")
    case True
    with "4.IH"(1)[OF True wes ses] show ?thesis by simp
  next
    case False
    with se have ex: "path_exists src (rel @ [n])" and sc: "settled src (rel @ [n]) c"
      by (auto simp: entry_settled_def)
    have "pruned_entries src rel ((n, c) # es) =
        (n, pruned src (rel @ [n]) c) # pruned_entries src rel es"
      using False ex by auto
    with "4.IH"(2)[OF False ex wc sc] "4.IH"(3)[OF False ex wes ses]
    show ?thesis by simp
  qed
qed

lemma mirror_stat:
  assumes ws: "wf_node src" and ww: "wf_node wc" and d: "is_dir_node src"
    and nc: "noconf src wc" and m: "mirror src wc = Inr wc'"
  shows "stat wc' p = (if stat src p \<noteq> Missing then stat src p else stat (pruned src [] wc) p)"
    and "wf_node wc'"
    and "noconf src wc'"
    and "settled src [] wc'"
proof -
  let ?w1 = "pruned src [] wc"
  from m have cl: "copy_loop src (os_walk src []) ?w1 = Inr wc'"
    by (simp add: mirror_def walk_remove_pruned(1)[OF ww])
  have n1: "noconf src ?w1"
    unfolding noconf_def
  proof (intro allI impI)
    fix q c assume f: "stat src q = IsFile c"
    show "stat ?w1 q \<noteq> IsDir"
    proof
      assume a: "stat ?w1 q = IsDir"
      with stat_pruned_sub[OF ww, of src "[]" q] have "stat wc q = IsDir" by simp
      with nc f show False by (auto simp: noconf_def)
    qed
  qed
  from copy_loop_stat[OF cl os_walk_yields_ok[OF ws] n1] have
    st: "\<And>p. stat wc' p = (if covered (os_walk src []) p then stat src p else stat ?w1 p)"
    and n': "noconf src wc'" by auto
  show st': "stat wc' p = (if stat src p \<noteq> Missing then stat src p else stat ?w1 p)" for p
    using st[of p] covered_os_walk[OF ws d, of p] by simp
  show "wf_node wc'"
    by (rule wf_copy_loop[OF wf_pruned(1)[OF ww] cl])
  show "noconf src wc'" by (rule n')
  show "settled src [] wc'"
    unfolding settled_def
  proof (intro allI impI)
    fix x q assume ex: "stat wc' (x # q) \<noteq> Missing"
    show "path_exists src ([] @ x # q) \<or> ([] = [] \<and> x = ''.svn'' \<and> stat wc' [x] = IsDir)"
    proof (cases "stat src (x # q) \<noteq> Missing")
      case True
      then show ?thesis by (simp add: path_exists_stat)
    next
      case False
      with ex st'[of "x # q"] have "stat ?w1 (x # q) \<noteq> Missing" by simp
      with settled_pruned[OF ww, of src "[]"] False
      have svn: "x = ''.svn''" and sd: "stat ?w1 [x] = IsDir"
        by (auto simp: settled_def path_exists_stat)
      have "stat wc' [x] = IsDir"
      proof (cases "stat src [x]")
        case Missing
        with st'[of "[x]"] sd show ?thesis by simp
      next
        case IsDir
        with st'[of "[x]"] show ?thesis by simp
      next
        case (IsFile c)
        with n1 sd show ?thesis by (auto simp: noconf_def)
      qed
      with svn show ?thesis by simp
    qed
  qed
qed

lemmas tree_simps = mirror_def scandir_def delete_extras_def path_exists_def os_remove_def
  rmtree_ignore_errors_def copy2_def isdir_def

lemma file_over_dir_lookup:
  "file_over_dir src wc \<Longrightarrow> wf_node src \<Longrightarrow> \<exists>p c. lookup src p = Some (File c) \<and> isdir wc p"
proof (induction src wc rule: file_over_dir.induct)
  case (1 c es')
  then show ?case by (intro exI[of _ "[]"] exI[of _ c]) (simp add: isdir_def)
next
  case (2 c c')
  then show ?case by simp
next
  case (3 es c')
  then show ?case by simp
next
  case (4 es es')
  then obtain e n' where e: "e \<in> set es" and n': "map_of es' (fst e) = Some n'"
    and f: "file_over_dir (snd e) n'"
    by (auto simp: list_ex_iff split: option.splits)
  from "4.prems"(2) e have w: "wf_node (snd e)" and m: "map_of es (fst e) = Some (snd e)"
    by (auto simp: list_all_iff)
  from "4.IH"[OF e n' f w] obtain p c where p: "lookup (snd e) p = Some (File c)" "isdir n' p"
    by blast
  then have "lookup (Dir es) (fst e # p) = Some (File c) \<and> isdir (Dir es') (fst e # p)"
    using m n' by (simp add: isdir_def)
  then show ?case by blast
qed

section \<open>C1: what the mirror leaves\<close>




section \<open>C2: the commit is gated by the status text\<close>



section \<open>C3: removes come before the add\<close>

text \<open>
  C3, as amended. In every run in which \<open>svn add\<close> is started: the status document
  was read before it; for every entry of the document in state \<open>missing\<close> whose
  \<open>path\<close> attribute is not empty, the forced remove of that path was started before
  it and has exited with status 0; the remove commands started before it are exactly
  the forced removes of the paths the parser returns, in order, each of them has
  exited with status 0; and no remove is started after it.
\<close>

theorem reconciler_ordering:
  assumes run: "main h s = (r, s')"
  shows "\<exists>evs. log s' = log s @ evs \<and>
     (\<forall>pre cmd cwd res post.
        evs = pre @ Exec cmd cwd res # post \<and> subcommand ''add'' cmd \<longrightarrow>
        (\<exists>d out root. Exec [''svn'', ''status'', ''--xml''] d (Inr (0, out)) \<in> set pre \<and>
            fromstring h out = Some root \<and>
            filter (subcommand ''rm'') (execs pre) = map rm_cmd (missing_paths root) \<and>
            (\<forall>e p. e \<in> set (findall_descendants ''entry'' root) \<and>
                 item_state e = Some ''missing'' \<and> get_attr e ''path'' = Some p \<and> p \<noteq> [] \<longrightarrow>
                 (\<exists>out'. Exec (rm_cmd p) d (Inr (0, out')) \<in> set pre))) \<and>
        (\<forall>c d x. Exec c d x \<in> set pre \<and> subcommand ''rm'' c \<longrightarrow> (\<exists>out. x = Inr (0, out))) \<and>
        filter (subcommand ''rm'') (execs post) = [])"
proof -
  from main_has_trace[OF run] obtain evs where
    evs: "log s' = log s @ evs" and tr: "main_trace h r evs" by blast
  have "(\<exists>d out root. Exec [''svn'', ''status'', ''--xml''] d (Inr (0, out)) \<in> set pre \<and>
            fromstring h out = Some root \<and>
            filter (subcommand ''rm'') (execs pre) = map rm_cmd (missing_paths root) \<and>
            (\<forall>e p. e \<in> set (findall_descendants ''entry'' root) \<and>
                 item_state e = Some ''missing'' \<and> get_attr e ''path'' = Some p \<and> p \<noteq> [] \<longrightarrow>
                 (\<exists>out'. Exec (rm_cmd p) d (Inr (0, out')) \<in> set pre))) \<and>
        (\<forall>c d x. Exec c d x \<in> set pre \<and> subcommand ''rm'' c \<longrightarrow> (\<exists>out. x = Inr (0, out))) \<and>
        filter (subcommand ''rm'') (execs post) = []"
    if split: "evs = pre @ Exec cmd cwd res # post" and add: "subcommand ''add'' cmd"
    for pre cmd cwd res post
  proof -
    from main_trace_add[OF tr split add] obtain A wc_root out root outs where
      A: "list_all (pre_cmd h) (execs A)" and root: "fromstring h out = Some root"
      and outs: "length outs = length (missing_paths root)"
      and pre: "pre = A @ run_events [''svn'', ''status'', ''--xml''] (Some wc_root) (Inr (0, out)) @
                 delete_events wc_root (zip (missing_paths root) outs) @
                 [Print (trace_line add_cmd (Some wc_root))]"
      and post: "filter (subcommand ''rm'') (execs post) = []"
      by blast
    have q: "Exec [''svn'', ''status'', ''--xml''] (Some wc_root) (Inr (0, out)) \<in> set pre"
      by (simp add: pre run_events_def)
    have rms: "filter (subcommand ''rm'') (execs pre) = map rm_cmd (missing_paths root)"
      using filter_pre_none[OF A, of "''rm''"] outs
      by (simp add: pre execs_append execs_delete_events)
    have each: "\<exists>out'. Exec (rm_cmd p) (Some wc_root) (Inr (0, out')) \<in> set pre"
      if e: "e \<in> set (findall_descendants ''entry'' root)" and st: "item_state e = Some ''missing''"
        and p: "get_attr e ''path'' = Some p" and ne: "p \<noteq> []" for e p
    proof -
      from e st p ne have "p \<in> set (missing_paths root)"
        unfolding missing_paths_set by blast
      from delete_events_has_rm[OF outs this, of wc_root] show ?thesis
        by (auto simp: pre)
    qed
    have fin: "\<exists>out. x = Inr (0, out)" if "Exec c d x \<in> set pre" "subcommand ''rm'' c" for c d x
    proof -
      have "Exec c d x \<notin> set A"
        using not_in_pre[OF A, of c d x] pre_cmd_subcommand[of h c "''rm''"] that(2) by auto
      with that have "Exec c d x \<in> set (delete_events wc_root (zip (missing_paths root) outs))"
        by (auto simp: pre run_events_def)
      then show ?thesis by (rule delete_events_results)
    qed
    from q root rms each have
      "\<exists>d out root. Exec [''svn'', ''status'', ''--xml''] d (Inr (0, out)) \<in> set pre \<and>
            fromstring h out = Some root \<and>
            filter (subcommand ''rm'') (execs pre) = map rm_cmd (missing_paths root) \<and>
            (\<forall>e p. e \<in> set (findall_descendants ''entry'' root) \<and>
                 item_state e = Some ''missing'' \<and> get_attr e ''path'' = Some p \<and> p \<noteq> [] \<longrightarrow>
                 (\<exists>out'. Exec (rm_cmd p) d (Inr (0, out')) \<in> set pre))"
      by blast
    with fin post show ?thesis by blast
  qed
  with evs show ?thesis by blast
qed

text \<open>The scenario run: one remove, for \<open>old.txt\<close>, before the add.\<close>

theorem reconciler_ordering_witness:
  "\<exists>pre post.
     log (snd (main (scenario True ''<status/>'' ''D old.txt'') fresh)) =
       pre @ Exec add_cmd (Some ''/tmp/svn-wc-1'') (Inr (0, [])) # post \<and>
     filter (subcommand ''rm'') (execs pre) = [[''svn'', ''rm'', ''--force'', ''old.txt'']] \<and>
     (\<exists>d out'. Exec (rm_cmd ''old.txt'') d (Inr (0, out')) \<in> set pre) \<and>
     filter (subcommand ''rm'') (execs post) = []"
proof -
  let ?h = "scenario True ''<status/>'' ''D old.txt''"
  let ?pre = "butlast scenario_prefix"
  let ?post = "drop (length scenario_prefix) (log (snd (main ?h fresh)))"
  let ?e = "Element ''entry'' [(''path'', ''old.txt'')]
             [Element ''wc-status'' [(''item'', ''missing''), (''props'', ''none'')] []]"
  have r: "main ?h fresh = (fst (main ?h fresh), snd (main ?h fresh))" by simp
  have split: "log (snd (main ?h fresh)) = ?pre @ Exec add_cmd (Some ''/tmp/svn-wc-1'') (Inr (0, [])) # ?post"
    by (subst (1 2) scenario_run_changes) (simp_all add: strip_examples scenario_prefix_def)
  from reconciler_ordering[OF r] obtain evs where
    e: "log (snd (main ?h fresh)) = log fresh @ evs"
    and all: "\<And>pre cmd cwd res post.
        evs = pre @ Exec cmd cwd res # post \<and> subcommand ''add'' cmd \<Longrightarrow>
        (\<exists>d out root. Exec [''svn'', ''status'', ''--xml''] d (Inr (0, out)) \<in> set pre \<and>
            fromstring ?h out = Some root \<and>
            filter (subcommand ''rm'') (execs pre) = map rm_cmd (missing_paths root) \<and>
            (\<forall>e p. e \<in> set (findall_descendants ''entry'' root) \<and>
                 item_state e = Some ''missing'' \<and> get_attr e ''path'' = Some p \<and> p \<noteq> [] \<longrightarrow>
                 (\<exists>out'. Exec (rm_cmd p) d (Inr (0, out')) \<in> set pre))) \<and>
        (\<forall>c d x. Exec c d x \<in> set pre \<and> subcommand ''rm'' c \<longrightarrow> (\<exists>out. x = Inr (0, out))) \<and>
        filter (subcommand ''rm'') (execs post) = []"
    by blast
  have "evs = ?pre @ Exec add_cmd (Some ''/tmp/svn-wc-1'') (Inr (0, [])) # ?post \<and>
        subcommand ''add'' add_cmd"
    using e split by (simp add: fresh_def)
  from all[OF this] obtain d out root where
    root: "fromstring ?h out = Some root"
    and rms: "filter (subcommand ''rm'') (execs ?pre) = map rm_cmd (missing_paths root)"
    and each: "\<And>e p. e \<in> set (findall_descendants ''entry'' root) \<and>
                 item_state e = Some ''missing'' \<and> get_attr e ''path'' = Some p \<and> p \<noteq> [] \<Longrightarrow>
                 (\<exists>out'. Exec (rm_cmd p) d (Inr (0, out')) \<in> set ?pre)"
    and post: "filter (subcommand ''rm'') (execs ?post) = []"
    by blast
  from root have doc: "root = status_document"
    by (simp add: scenario_def split: if_splits)
  have "map rm_cmd (missing_paths status_document) = [[''svn'', ''rm'', ''--force'', ''old.txt'']]"
    by (simp add: status_document_def missing_paths_def findall_descendants_def find_child_def
          get_attr_def get_attr_default_def rm_cmd_def)
  with rms doc have one: "filter (subcommand ''rm'') (execs ?pre) = [[''svn'', ''rm'', ''--force'', ''old.txt'']]"
    by simp
  have "?e \<in> set (findall_descendants ''entry'' root) \<and>
        item_state ?e = Some ''missing'' \<and> get_attr ?e ''path'' = Some ''old.txt'' \<and> ''old.txt'' \<noteq> []"
    by (simp add: doc status_document_def findall_descendants_def item_state_def find_child_def
          get_attr_def get_attr_default_def)
  from each[OF this] have "\<exists>d out'. Exec (rm_cmd ''old.txt'') d (Inr (0, out')) \<in> set ?pre"
    by blast
  with split one post show ?thesis by blast
qed

text \<open>
  C3 as stated fails for an entry in state \<open>missing\<close> whose path is empty: the status
  query reports it, and the run starts \<open>svn add\<close> without having started a forced
  remove for it (the guard \<open>if path:\<close> of line 46 has left it out of the list that the
  loop of lines 136 to 138 goes through).
\<close>

theorem reconciler_ordering_counterexample:
  "fromstring empty_path_scenario ''<status/>'' = Some empty_path_document \<and>
   Element ''entry'' [(''path'', [])] [Element ''wc-status'' [(''item'', ''missing'')] []]
     \<in> set (findall_descendants ''entry'' empty_path_document) \<and>
   item_state (Element ''entry'' [(''path'', [])] [Element ''wc-status'' [(''item'', ''missing'')] []])
     = Some ''missing'' \<and>
   get_attr (Element ''entry'' [(''path'', [])] [Element ''wc-status'' [(''item'', ''missing'')] []]) ''path''
     = Some [] \<and>
   execs (log (snd (main empty_path_scenario fresh))) =
     [[''svn'', ''--version''],
      [''svn'', ''checkout'', ''http://svn/r'', ''/tmp/svn-wc-1'', ''--non-interactive'',
       ''--trust-server-cert'', ''--username'', ''u'', ''--password'', ''p'', ''--no-auth-cache''],
      [''svn'', ''update''],
      [''svn'', ''status'', ''--xml''],
      [''svn'', ''rm'', ''--force'', ''old.txt''],
      add_cmd,
      [''svn'', ''status''],
      [''svn'', ''commit'', ''-m'', ''sync'', ''--non-interactive'',
       ''--trust-server-cert'', ''--username'', ''u'', ''--password'', ''p'', ''--no-auth-cache'']] \<and>
   rm_cmd [] \<notin> set (execs (log (snd (main empty_path_scenario fresh))))"
proof -
  have "execs (log (snd (main empty_path_scenario fresh))) =
     [[''svn'', ''--version''],
      [''svn'', ''checkout'', ''http://svn/r'', ''/tmp/svn-wc-1'', ''--non-interactive'',
       ''--trust-server-cert'', ''--username'', ''u'', ''--password'', ''p'', ''--no-auth-cache''],
      [''svn'', ''update''],
      [''svn'', ''status'', ''--xml''],
      [''svn'', ''rm'', ''--force'', ''old.txt''],
      add_cmd,
      [''svn'', ''status''],
      [''svn'', ''commit'', ''-m'', ''sync'', ''--non-interactive'',
       ''--trust-server-cert'', ''--username'', ''u'', ''--password'', ''p'', ''--no-auth-cache'']]"
    by (subst empty_path_scenario_run) (simp add: scenario_prefix_def)
  moreover have "fromstring empty_path_scenario ''<status/>'' = Some empty_path_document"
    by (simp add: empty_path_scenario_def)
  moreover have
    "Element ''entry'' [(''path'', [])] [Element ''wc-status'' [(''item'', ''missing'')] []]
       \<in> set (findall_descendants ''entry'' empty_path_document) \<and>
     item_state (Element ''entry'' [(''path'', [])] [Element ''wc-status'' [(''item'', ''missing'')] []])
       = Some ''missing'' \<and>
     get_attr (Element ''entry'' [(''path'', [])] [Element ''wc-status'' [(''item'', ''missing'')] []]) ''path''
       = Some []"
    by (simp add: empty_path_document_def findall_descendants_def item_state_def find_child_def
          get_attr_def get_attr_default_def)
  ultimately show ?thesis by (simp add: rm_cmd_def add_cmd_def)
qed

section \<open>C4: a delete target that is already gone\<close>

text \<open>
  C4. The body of the first loop, for a listing that names \<open>gone.txt\<close> (as a file) of a
  directory that no longer holds it: \<open>os.remove\<close> raises \<open>FileNotFoundError\<close>, which
  nothing catches, so the run ends. For a listing that names a directory \<open>gone\<close> that
  is no longer there, \<open>shutil.rmtree(..., ignore_errors=True)\<close> swallows the error.
\<close>

theorem stale_listing_remove_raises:
  "delete_extras (Dir []) [] [] [''gone.txt''] [] = Inl FileNotFoundError \<and>
   delete_extras (Dir []) [] [''gone''] [] [] = Inr []"
  by (simp add: tree_simps)

section \<open>C5: the paths the parser returns\<close>

text \<open>
  C5, as amended. The parser returns exactly the non-empty \<open>path\<close> attributes of
  the \<open>entry\<close> elements below the root whose first \<open>wc-status\<close> child has the
  \<open>item\<close> attribute \<open>missing\<close>: no path is returned on account of an entry in
  another state. And in every run, every forced remove that is started is the remove
  of the non-empty path of an entry in state \<open>missing\<close> of the status document that
  the run has read: no remove is scheduled on account of an entry in another state.
\<close>

theorem missing_filter_exact:
  assumes run: "main h s = (r, s')"
  shows "set (missing_paths root) =
       {p. p \<noteq> [] \<and>
           (\<exists>e \<in> set (findall_descendants ''entry'' root).
              item_state e = Some ''missing'' \<and> get_attr e ''path'' = Some p)} \<and>
     (\<exists>evs. log s' = log s @ evs \<and>
        (\<forall>c d x. Exec c d x \<in> set evs \<and> subcommand ''rm'' c \<longrightarrow>
           (\<exists>d' out doc e p.
              Exec [''svn'', ''status'', ''--xml''] d' (Inr (0, out)) \<in> set evs \<and>
              fromstring h out = Some doc \<and>
              e \<in> set (findall_descendants ''entry'' doc) \<and>
              item_state e = Some ''missing'' \<and> get_attr e ''path'' = Some p \<and> p \<noteq> [] \<and>
              c = rm_cmd p)))"
proof
  show "set (missing_paths root) =
       {p. p \<noteq> [] \<and>
           (\<exists>e \<in> set (findall_descendants ''entry'' root).
              item_state e = Some ''missing'' \<and> get_attr e ''path'' = Some p)}"
    by (rule missing_paths_set)
next
  from main_has_trace[OF run] obtain evs where
    evs: "log s' = log s @ evs" and tr: "main_trace h r evs" by blast
  have "\<exists>d' out doc e p.
          Exec [''svn'', ''status'', ''--xml''] d' (Inr (0, out)) \<in> set evs \<and>
          fromstring h out = Some doc \<and>
          e \<in> set (findall_descendants ''entry'' doc) \<and>
          item_state e = Some ''missing'' \<and> get_attr e ''path'' = Some p \<and> p \<noteq> [] \<and>
          c = rm_cmd p"
    if "Exec c d x \<in> set evs" and "subcommand ''rm'' c" for c d x
  proof -
    from main_trace_rm[OF tr that] obtain d' out doc p where
      q: "Exec [''svn'', ''status'', ''--xml''] d' (Inr (0, out)) \<in> set evs"
      and doc: "fromstring h out = Some doc" and p: "p \<in> set (missing_paths doc)" and c: "c = rm_cmd p"
      by blast
    from p obtain e where "p \<noteq> []" "e \<in> set (findall_descendants ''entry'' doc)"
      "item_state e = Some ''missing''" "get_attr e ''path'' = Some p"
      unfolding missing_paths_set by blast
    with q doc c show ?thesis by blast
  qed
  with evs show "\<exists>evs. log s' = log s @ evs \<and>
        (\<forall>c d x. Exec c d x \<in> set evs \<and> subcommand ''rm'' c \<longrightarrow>
           (\<exists>d' out doc e p.
              Exec [''svn'', ''status'', ''--xml''] d' (Inr (0, out)) \<in> set evs \<and>
              fromstring h out = Some doc \<and>
              e \<in> set (findall_descendants ''entry'' doc) \<and>
              item_state e = Some ''missing'' \<and> get_attr e ''path'' = Some p \<and> p \<noteq> [] \<and>
              c = rm_cmd p))"
    by blast
qed

text \<open>
  The status document of the scenarios: only \<open>old.txt\<close> is missing, and the one
  remove of the run is for it.
\<close>

theorem missing_filter_exact_witness:
  "set (missing_paths status_document) = {''old.txt''} \<and>
   Exec [''svn'', ''rm'', ''--force'', ''old.txt''] (Some ''/tmp/svn-wc-1'') (Inr (0, []))
     \<in> set (log (snd (main (scenario True ''<status/>'' ''D old.txt'') fresh))) \<and>
   (\<exists>e p. e \<in> set (findall_descendants ''entry'' status_document) \<and>
      item_state e = Some ''missing'' \<and> get_attr e ''path'' = Some p \<and> p \<noteq> [] \<and>
      [''svn'', ''rm'', ''--force'', ''old.txt''] = rm_cmd p)"
proof -
  let ?h = "scenario True ''<status/>'' ''D old.txt''"
  let ?rm = "Exec [''svn'', ''rm'', ''--force'', ''old.txt''] (Some ''/tmp/svn-wc-1'') (Inr (0, []))"
  have r: "main ?h fresh = (fst (main ?h fresh), snd (main ?h fresh))" by simp
  have entries: "findall_descendants ''entry'' status_document =
      [Element ''entry'' [(''path'', ''old.txt'')]
             [Element ''wc-status'' [(''item'', ''missing''), (''props'', ''none'')] []],
       Element ''entry'' [(''path'', ''new.txt'')]
             [Element ''wc-status'' [(''item'', ''unversioned'')] []]]"
    by (simp add: status_document_def findall_descendants_def)
  have mem: "?rm \<in> set (log (snd (main ?h fresh)))"
    by (subst scenario_run_changes) (simp_all add: strip_examples scenario_prefix_def)
  from missing_filter_exact[OF r, of status_document] obtain evs where
    paths: "set (missing_paths status_document) =
       {p. p \<noteq> [] \<and>
           (\<exists>e \<in> set (findall_descendants ''entry'' status_document).
              item_state e = Some ''missing'' \<and> get_attr e ''path'' = Some p)}"
    and e: "log (snd (main ?h fresh)) = log fresh @ evs"
    and only: "\<And>c d x. Exec c d x \<in> set evs \<and> subcommand ''rm'' c \<Longrightarrow>
           (\<exists>d' out doc e p.
              Exec [''svn'', ''status'', ''--xml''] d' (Inr (0, out)) \<in> set evs \<and>
              fromstring ?h out = Some doc \<and>
              e \<in> set (findall_descendants ''entry'' doc) \<and>
              item_state e = Some ''missing'' \<and> get_attr e ''path'' = Some p \<and> p \<noteq> [] \<and>
              c = rm_cmd p)"
    by blast
  from paths have one: "set (missing_paths status_document) = {''old.txt''}"
    unfolding entries
    by (auto simp: item_state_def find_child_def get_attr_def get_attr_default_def)
  from mem e have "?rm \<in> set evs \<and> subcommand ''rm'' [''svn'', ''rm'', ''--force'', ''old.txt'']"
    by (simp add: fresh_def subcommand_def)
  from only[OF this] obtain out doc e p where
    doc: "fromstring ?h out = Some doc"
    and ep: "e \<in> set (findall_descendants ''entry'' doc)" "item_state e = Some ''missing''"
      "get_attr e ''path'' = Some p" "p \<noteq> []" "[''svn'', ''rm'', ''--force'', ''old.txt''] = rm_cmd p"
    by blast
  from doc have "doc = status_document"
    by (simp add: scenario_def split: if_splits)
  with ep have "\<exists>e p. e \<in> set (findall_descendants ''entry'' status_document) \<and>
      item_state e = Some ''missing'' \<and> get_attr e ''path'' = Some p \<and> p \<noteq> [] \<and>
      [''svn'', ''rm'', ''--force'', ''old.txt''] = rm_cmd p"
    by blast
  with one mem show ?thesis by blast
qed

text \<open>
  C5 as stated fails for an entry whose path is empty: it is an entry in state
  \<open>missing\<close>, and the guard \<open>if path:\<close> of line 46 leaves its path out.
\<close>

theorem missing_filter_counterexample:
  "Element ''entry'' [(''path'', [])] [Element ''wc-status'' [(''item'', ''missing'')] []]
     \<in> set (findall_descendants ''entry''
          (Element ''status'' []
             [Element ''entry'' [(''path'', [])] [Element ''wc-status'' [(''item'', ''missing'')] []]])) \<and>
   item_state (Element ''entry'' [(''path'', [])] [Element ''wc-status'' [(''item'', ''missing'')] []])
     = Some ''missing'' \<and>
   get_attr (Element ''entry'' [(''path'', [])] [Element ''wc-status'' [(''item'', ''missing'')] []]) ''path''
     = Some [] \<and>
   [] \<notin> set (missing_paths
          (Element ''status'' []
             [Element ''entry'' [(''path'', [])] [Element ''wc-status'' [(''item'', ''missing'')] []]]))"
  by (simp add: findall_descendants_def item_state_def find_child_def get_attr_def
        get_attr_default_def missing_paths_def)

section \<open>C6: a status document that does not parse ends the run\<close>

text \<open>
  C6. In every run, when the output of \<open>svn status --xml\<close> does not parse, the run
  ends with an exception, with \<open>ParseError\<close> when the command itself had exited with
  status 0, and no remove, add or commit command is started in the run.
\<close>

theorem parse_failure_fatal:
  assumes run: "main h s = (r, s')"
  shows "\<exists>evs. log s' = log s @ evs \<and>
     (\<forall>d rc out. Exec [''svn'', ''status'', ''--xml''] d (Inr (rc, out)) \<in> set evs \<and>
          fromstring h out = None \<longrightarrow>
        (\<exists>e. r = Inl e) \<and> (rc = 0 \<longrightarrow> r = Inl ParseError) \<and>
        filter (subcommand ''rm'') (execs evs) = [] \<and>
        filter (subcommand ''add'') (execs evs) = [] \<and>
        filter (subcommand ''commit'') (execs evs) = [])"
proof -
  from main_has_trace[OF run] obtain evs where
    evs: "log s' = log s @ evs" and tr: "main_trace h r evs" by blast
  have "(\<exists>e. r = Inl e) \<and> (rc = 0 \<longrightarrow> r = Inl ParseError) \<and>
        filter (subcommand ''rm'') (execs evs) = [] \<and>
        filter (subcommand ''add'') (execs evs) = [] \<and>
        filter (subcommand ''commit'') (execs evs) = []"
    if ev: "Exec [''svn'', ''status'', ''--xml''] d (Inr (rc, out)) \<in> set evs"
      and bad: "fromstring h out = None" for d rc out
    using tr
  proof (cases rule: main_trace.cases)
    case (early e)
    from not_in_pre[OF early(2), of "[''svn'', ''status'', ''--xml'']"] ev show ?thesis by simp
  next
    case (in_reconcile A wc_root e B)
    from not_in_pre[OF in_reconcile(3), of "[''svn'', ''status'', ''--xml'']"] ev in_reconcile(2)
    have "Exec [''svn'', ''status'', ''--xml''] d (Inr (rc, out)) \<in> set B" by simp
    from reconcile_trace_parse[OF in_reconcile(4) this bad] in_reconcile(1,2)
      filter_pre_none[OF in_reconcile(3)]
    show ?thesis by (simp add: execs_append)
  next
    case (decided A wc_root B msg C)
    from not_in_pre[OF decided(2), of "[''svn'', ''status'', ''--xml'']"]
      xml_not_in_commit_trace[OF decided(4)] ev decided(1)
    have "Exec [''svn'', ''status'', ''--xml''] d (Inr (rc, out)) \<in> set B" by simp
    from reconcile_trace_parse[OF decided(3) this bad] show ?thesis by simp
  qed
  with evs show ?thesis by blast
qed

text \<open>The scenario with a truncated document.\<close>

theorem parse_failure_fatal_witness:
  "fst (main (scenario True ''<bad'' ''D old.txt'') fresh) = Inl ParseError \<and>
   filter (subcommand ''rm'') (execs (log (snd (main (scenario True ''<bad'' ''D old.txt'') fresh)))) = [] \<and>
   filter (subcommand ''add'') (execs (log (snd (main (scenario True ''<bad'' ''D old.txt'') fresh)))) = []"
proof -
  let ?h = "scenario True ''<bad'' ''D old.txt''"
  have r: "main ?h fresh = (fst (main ?h fresh), snd (main ?h fresh))" by simp
  have ev: "Exec [''svn'', ''status'', ''--xml''] (Some ''/tmp/svn-wc-1'') (Inr (0, ''<bad''))
              \<in> set (log (snd (main ?h fresh)))"
    by (subst scenario_run_bad_xml) simp
  have bad: "fromstring ?h ''<bad'' = None" by (simp add: scenario_def)
  from parse_failure_fatal[OF r] ev bad show ?thesis
    by (auto simp: fresh_def)
qed

section \<open>C7: a missing tool ends the run before anything is touched\<close>

text \<open>
  C7. When \<open>svn --version\<close> cannot be started, the run ends with an exception, the
  world is what it was (no working copy directory has been made, nothing checked
  out, mirrored or committed), the trace has no \<open>Makedirs\<close> event and the only command
  in it is \<open>svn --version\<close>.
\<close>

theorem tool_check_failure_stops_run:
  assumes nf: "process h [''svn'', ''--version''] None (world s) = Inl e"
    and run: "main h s = (r, s')"
  shows "(\<exists>x. r = Inl x) \<and> world s' = world s \<and>
     (\<exists>evs. log s' = log s @ evs \<and> (\<forall>d. Makedirs d \<notin> set evs) \<and>
        (\<forall>c \<in> set (execs evs). c = [''svn'', ''--version'']))"
proof -
  have tool: "ensure_tool h ''svn'' s0 =
     (Inl (OSError e),
      s0\<lparr>log := log s0 @ run_events [''svn'', ''--version''] None (Inl e) @
                 [Print (''ERROR: Required tool not found: svn'')]\<rparr>)"
    if "world s0 = world s" for s0 :: "'a state"
    using ensure_tool_not_started[of h "''svn''" s0 e] nf that by simp
  from run show ?thesis
    by (auto simp: main_def bindM_def get_env_def need_def Let_def print_def emit_def raiseM_def
          returnM_def tool run_events_def split: option.splits if_splits)
qed

text \<open>The scenario without \<open>svn\<close>.\<close>

theorem tool_check_failure_stops_run_witness:
  "(\<exists>x. fst (main (scenario False ''<status/>'' ''D old.txt'') fresh) = Inl x) \<and>
   world (snd (main (scenario False ''<status/>'' ''D old.txt'') fresh)) = world fresh"
proof -
  let ?h = "scenario False ''<status/>'' ''D old.txt''"
  have nf: "process ?h [''svn'', ''--version''] None (world fresh) = Inl FileNotFoundError"
    by (simp add: scenario_def)
  have r: "main ?h fresh = (fst (main ?h fresh), snd (main ?h fresh))" by simp
  from tool_check_failure_stops_run[OF nf r] show ?thesis by blast
qed

section \<open>C8: mirroring twice\<close>

text \<open>
  C8, as amended. For trees with distinct names in every directory and a source that
  is a directory: when no path is a file in the source and a directory in the
  working copy, and the portable mirror completes, then a second mirror from the
  same source completes too, its deletion walk deletes nothing, and it leaves the
  tree the first one left.
\<close>

theorem mirror_idempotent:
  assumes "wf_node src" and "wf_node wc" and "is_dir_node src"
    and "\<not> file_over_dir src wc" and "mirror src wc = Inr wc'"
  shows "walk_remove src [] wc' = Inr wc' \<and> mirror src wc' = Inr wc'"
proof -
  note ms = mirror_stat[OF assms(1,2,3) noconf_file_over_dir[OF assms(4)] assms(5)]
  have p: "pruned src [] wc' = wc'"
    by (rule pruned_same(1)[OF ms(2) ms(4)])
  have wr: "walk_remove src [] wc' = Inr wc'"
    using walk_remove_pruned(1)[OF ms(2), of src "[]"] p by simp
  have "\<forall>q. covered (os_walk src []) q \<longrightarrow> stat wc' q = stat src q"
    using ms(1) covered_os_walk[OF assms(1,3)] by simp
  from copy_loop_same[OF os_walk_yields_ok[OF assms(1)] this]
  have "copy_loop src (os_walk src []) wc' = Inr wc'" .
  with wr show ?thesis by (simp add: mirror_def)
qed

text \<open>The trees of the witness of C1.\<close>

theorem mirror_idempotent_witness:
  "\<exists>wc'. mirror (Dir [(''a.txt'', File ''A''), (''sub'', Dir [(''b.txt'', File ''B'')])])
              (Dir [(''.svn'', Dir [(''wc.db'', File ''M'')]), (''a.txt'', File ''old''),
                    (''old.txt'', File ''O'')]) = Inr wc' \<and>
         walk_remove (Dir [(''a.txt'', File ''A''), (''sub'', Dir [(''b.txt'', File ''B'')])]) [] wc' = Inr wc' \<and>
         mirror (Dir [(''a.txt'', File ''A''), (''sub'', Dir [(''b.txt'', File ''B'')])]) wc' = Inr wc'"
proof -
  let ?src = "Dir [(''a.txt'', File ''A''), (''sub'', Dir [(''b.txt'', File ''B'')])]"
  let ?wc = "Dir [(''.svn'', Dir [(''wc.db'', File ''M'')]), (''a.txt'', File ''old''),
                    (''old.txt'', File ''O'')]"
  let ?wc' = "Dir [(''.svn'', Dir [(''wc.db'', File ''M'')]), (''a.txt'', File ''A''),
                    (''sub'', Dir [(''b.txt'', File ''B'')])]"
  have m: "mirror ?src ?wc = Inr ?wc'" by (simp add: tree_simps)
  have h: "wf_node ?src" "wf_node ?wc" "is_dir_node ?src" "\<not> file_over_dir ?src ?wc"
    by simp_all
  from mirror_idempotent[OF h m] m show ?thesis by blast
qed

text \<open>
  C8 as stated fails where the source has a file \<open>x\<close> and the working copy a directory
  \<open>x\<close>: the first mirror leaves \<open>x/x\<close>, and the deletion walk of the second mirror
  deletes it, before the copy walk writes it again.
\<close>

theorem mirror_idempotent_counterexample:
  "mirror (Dir [(''x'', File ''c'')]) (Dir [(''x'', Dir [])]) =
     Inr (Dir [(''x'', Dir [(''x'', File ''c'')])]) \<and>
   walk_remove (Dir [(''x'', File ''c'')]) [] (Dir [(''x'', Dir [(''x'', File ''c'')])]) =
     Inr (Dir [(''x'', Dir [])]) \<and>
   Dir [(''x'', Dir [])] \<noteq> Dir [(''x'', Dir [(''x'', File ''c'')])]"
  by (simp add: tree_simps)

section \<open>C9: the credentials of checkout and commit\<close>

text \<open>
  C9. In every run, a checkout or commit command carries the arguments
  \<open>--username u --password p --no-auth-cache\<close> after its six own arguments exactly
  when both SVN_USERNAME and SVN_PASSWORD are set and not empty; when either is
  missing or empty, nothing follows the six arguments.
\<close>

theorem credentials_coupling:
  assumes run: "main h s = (r, s')"
  shows "\<exists>evs. log s' = log s @ evs \<and>
     (\<forall>cmd \<in> set (execs evs). subcommand ''checkout'' cmd \<or> subcommand ''commit'' cmd \<longrightarrow>
        6 \<le> length cmd \<and>
        (\<forall>u p. environ h ''SVN_USERNAME'' = Some u \<and> environ h ''SVN_PASSWORD'' = Some p \<and>
               u \<noteq> [] \<and> p \<noteq> [] \<longrightarrow>
               drop 6 cmd = [''--username'', u, ''--password'', p, ''--no-auth-cache'']) \<and>
        (\<not> (truthy (environ h ''SVN_USERNAME'') \<and> truthy (environ h ''SVN_PASSWORD'')) \<longrightarrow>
               drop 6 cmd = []))"
proof -
  let ?u = "environ h ''SVN_USERNAME''" and ?p = "environ h ''SVN_PASSWORD''"
  from main_has_trace[OF run] obtain evs where
    evs: "log s' = log s @ evs" and tr: "main_trace h r evs" by blast
  have "6 \<le> length cmd \<and> drop 6 cmd = credentials ?u ?p"
    if "cmd \<in> set (execs evs)" and sub: "subcommand ''checkout'' cmd \<or> subcommand ''commit'' cmd" for cmd
  proof -
    from main_trace_execs[OF tr that(1)] sub
    have "(\<exists>url d. cmd = checkout_cmd url d ?u ?p) \<or> (\<exists>msg. cmd = commit_cmd msg ?u ?p)"
      by (auto simp: pre_cmd_def subcommand_def robocopy_cmd_def rm_cmd_def add_cmd_def)
    then show ?thesis
      by (auto simp: drop6_checkout drop6_commit checkout_cmd_def commit_cmd_def)
  qed
  moreover have "credentials ?u ?p = [''--username'', u, ''--password'', p, ''--no-auth-cache'']"
    if "?u = Some u" "?p = Some p" "u \<noteq> []" "p \<noteq> []" for u p
    using that by (simp add: credentials_def)
  moreover have "credentials ?u ?p = []" if "\<not> (truthy ?u \<and> truthy ?p)"
    using that by (auto simp: credentials_def truthy_def split: option.splits)
  ultimately show ?thesis using evs by (intro exI[of _ evs]) auto
qed

text \<open>The scenario run: both commands carry the credentials.\<close>

theorem credentials_coupling_witness:
  "drop 6 (execs (log (snd (main (scenario True ''<status/>'' ''D old.txt'') fresh))) ! 1) =
     [''--username'', ''u'', ''--password'', ''p'', ''--no-auth-cache''] \<and>
   drop 6 (execs (log (snd (main (scenario True ''<status/>'' ''D old.txt'') fresh))) ! 7) =
     [''--username'', ''u'', ''--password'', ''p'', ''--no-auth-cache'']"
proof -
  let ?h = "scenario True ''<status/>'' ''D old.txt''"
  obtain r s' where run: "main ?h fresh = (r, s')" by (cases "main ?h fresh")
  have env: "environ ?h ''SVN_USERNAME'' = Some ''u''" "environ ?h ''SVN_PASSWORD'' = Some ''p''"
    by (simp_all add: scenario_def)
  from credentials_coupling[OF run] obtain evs where
    evs: "log s' = log fresh @ evs"
    and all: "\<forall>cmd \<in> set (execs evs).
        subcommand ''checkout'' cmd \<or> subcommand ''commit'' cmd \<longrightarrow>
        6 \<le> length cmd \<and>
        (\<forall>u p. environ ?h ''SVN_USERNAME'' = Some u \<and> environ ?h ''SVN_PASSWORD'' = Some p \<and>
               u \<noteq> [] \<and> p \<noteq> [] \<longrightarrow>
               drop 6 cmd = [''--username'', u, ''--password'', p, ''--no-auth-cache'']) \<and>
        (\<not> (truthy (environ ?h ''SVN_USERNAME'') \<and> truthy (environ ?h ''SVN_PASSWORD'')) \<longrightarrow>
               drop 6 cmd = [])"
    by blast
  have ex: "execs evs = execs (log (snd (main ?h fresh)))"
    using evs run by (simp add: fresh_def)
  have "execs evs ! 1 \<in> set (execs evs)" "execs evs ! 7 \<in> set (execs evs)"
    unfolding ex scenario_execs_changes by simp_all
  moreover have "subcommand ''checkout'' (execs evs ! 1)" "subcommand ''commit'' (execs evs ! 7)"
    unfolding ex scenario_execs_changes by (simp_all add: subcommand_def)
  ultimately show ?thesis
    using all env unfolding ex by blast
qed

section \<open>C10: status output of whitespace only means no changes\<close>

text \<open>
  C10. \<open>get_pending_status\<close> returns the stripped output and tests the stripped
  output for emptiness. So when \<open>svn status\<close> prints only whitespace, it returns the
  empty text and \<open>False\<close>, and the commit decision returns normally after the
  no-changes message, without starting a commit.
\<close>

theorem whitespace_status_suppresses_commit:
  assumes st: "process h [''svn'', ''status''] (Some wc_root) (world s) = Inr ((0, out), w)"
  shows "fst (get_pending_status h wc_root s) = Inr (strip out, strip out \<noteq> []) \<and>
     ((\<forall>c \<in> set out. isspace c) \<longrightarrow>
        fst (get_pending_status h wc_root s) = Inr ([], False) \<and>
        commit_decision h wc_root msg u p s =
          (Inr (),
           s\<lparr>world := w,
              log := log s @ run_events [''svn'', ''status''] (Some wc_root) (Inr (0, out)) @
                     [Print (status_summary []), Print ''No changes detected. Skipping commit.'']\<rparr>))"
proof (intro conjI impI)
  show "fst (get_pending_status h wc_root s) = Inr (strip out, strip out \<noteq> [])"
    by (simp add: get_pending_status_result[OF st])
next
  assume "\<forall>c \<in> set out. isspace c"
  then have e: "strip out = []" by (rule strip_all_space)
  then show "fst (get_pending_status h wc_root s) = Inr ([], False)"
    by (simp add: get_pending_status_result[OF st])
  show "commit_decision h wc_root msg u p s =
          (Inr (),
           s\<lparr>world := w,
              log := log s @ run_events [''svn'', ''status''] (Some wc_root) (Inr (0, out)) @
                     [Print (status_summary []), Print ''No changes detected. Skipping commit.'']\<rparr>)"
    using e
    by (simp add: commit_decision_def bindM_def get_pending_status_result[OF st] print_def emit_def
          status_summary_def)
qed

theorem whitespace_status_suppresses_commit_witness:
  "fst (get_pending_status (scenario True ''<status/>'' [CHR 0x0A]) ''/tmp/svn-wc-1'' fresh) = Inr ([], False) \<and>
   fst (commit_decision (scenario True ''<status/>'' [CHR 0x0A]) ''/tmp/svn-wc-1'' ''sync'' None None fresh) = Inr ()"
proof -
  let ?h = "scenario True ''<status/>'' [CHR 0x0A]"
  have st: "process ?h [''svn'', ''status''] (Some ''/tmp/svn-wc-1'') (world fresh) =
              Inr ((0, [CHR 0x0A]), world fresh)"
    by (simp add: scenario_def)
  have sp: "\<forall>c \<in> set [CHR 0x0A]. isspace c" by (simp add: isspace_def)
  from whitespace_status_suppresses_commit[OF st, of "''sync''" None None] sp
  have "fst (get_pending_status ?h ''/tmp/svn-wc-1'' fresh) = Inr ([], False)"
    and "\<exists>s'. commit_decision ?h ''/tmp/svn-wc-1'' ''sync'' None None fresh = (Inr (), s')"
    by blast+
  then show ?thesis by auto
qed

end
